theory Spec2Isabelle
  imports Main "HOL-Library.Sublist" "HOL-Library.AList" "HOL-Library.Char_ord"
    "HOL-Library.List_Lexorder"
begin

section \<open>Strings and slash-separated paths\<close>

text \<open>
  A Go string is a sequence of bytes, and so is a \<^typ>\<open>string\<close> here.  The server runs
  on a Unix system: the path separator is the slash, there are no volume names, and
  \<open>filepath.ToSlash\<close> leaves a path as it is.
\<close>

type_synonym bytes = "char list"

definition TrimPrefix :: "string \<Rightarrow> string \<Rightarrow> string" where
  "TrimPrefix s pre = (if prefix pre s then drop (length pre) s else s)"

definition HasPrefix :: "string \<Rightarrow> string \<Rightarrow> bool" where
  "HasPrefix s pre = prefix pre s"

text \<open>\<open>strings.SplitN(s, "/", 2)\<close>: cut at the first slash, if there is one.\<close>

definition SplitN2 :: "string \<Rightarrow> string list" where
  "SplitN2 s =
     (if CHR ''/'' \<in> set s
      then [takeWhile (\<lambda>c. c \<noteq> CHR ''/'') s, tl (dropWhile (\<lambda>c. c \<noteq> CHR ''/'') s)]
      else [s])"

text \<open>The elements of a path: the pieces between its slashes (an empty piece included).\<close>

fun split_slash :: "string \<Rightarrow> string list" where
  "split_slash [] = [[]]"
| "split_slash (c # cs) =
     (if c = CHR ''/'' then [] # split_slash cs
      else (case split_slash cs of [] \<Rightarrow> [[c]] | x # xs \<Rightarrow> (c # x) # xs))"

fun join_slash :: "string list \<Rightarrow> string" where
  "join_slash [] = []"
| "join_slash [x] = x"
| "join_slash (x # y # ys) = x @ ''/'' @ join_slash (y # ys)"

text \<open>
  \<open>filepath.Clean\<close>: drop empty and \<open>.\<close> elements, let each \<open>..\<close> cancel the element
  before it, drop a \<open>..\<close> that would climb above the root of a rooted path, and keep it
  at the front of a relative one.  The empty result of a relative path is \<open>.\<close>.
\<close>

fun clean_elems :: "bool \<Rightarrow> string list \<Rightarrow> string list \<Rightarrow> string list" where
  "clean_elems rooted out [] = out"
| "clean_elems rooted out (e # es) =
     (if e = [] \<or> e = ''.'' then clean_elems rooted out es
      else if e = ''..'' then
        (if out \<noteq> [] \<and> last out \<noteq> ''..'' then clean_elems rooted (butlast out) es
         else if rooted then clean_elems rooted out es
         else clean_elems rooted (out @ [''..'']) es)
      else clean_elems rooted (out @ [e]) es)"

definition is_rooted :: "string \<Rightarrow> bool" where
  "is_rooted p = (p \<noteq> [] \<and> hd p = CHR ''/'')"

definition render :: "bool \<Rightarrow> string list \<Rightarrow> string" where
  "render rooted out =
     (if rooted then ''/'' @ join_slash out
      else if out = [] then ''.'' else join_slash out)"

definition Clean :: "string \<Rightarrow> string" where
  "Clean p = (if p = [] then ''.''
              else render (is_rooted p) (clean_elems (is_rooted p) [] (split_slash p)))"

text \<open>
  \<open>filepath.Join\<close>: empty elements in front are ignored, the rest is joined with slashes
  and cleaned; when every element is empty the result is the empty string.
\<close>

definition Join :: "string list \<Rightarrow> string" where
  "Join elem = (case dropWhile (\<lambda>e. e = []) elem of
                  [] \<Rightarrow> []
                | es \<Rightarrow> Clean (join_slash es))"

text \<open>\<open>filepath.Dir\<close>: all but the last element of the path, cleaned.\<close>

definition Dir :: "string \<Rightarrow> string" where
  "Dir p = Clean (rev (dropWhile (\<lambda>c. c \<noteq> CHR ''/'') (rev p)))"

text \<open>
  \<open>filepath.Rel\<close> compares the two cleaned paths element by element.  The base path
  \<open>.\<close> counts as empty, and a path that ends in a slash (only \<open>/\<close>, once cleaned) has no
  element after that slash.
\<close>

definition path_elems :: "string \<Rightarrow> string list" where
  "path_elems p = (let es = split_slash p in if last es = [] then butlast es else es)"

fun drop_common :: "string list \<Rightarrow> string list \<Rightarrow> string list \<times> string list" where
  "drop_common (b # bs) (t # ts) = (if b = t then drop_common bs ts else (b # bs, t # ts))"
| "drop_common bs ts = (bs, ts)"

datatype rel_error = CantMakeRelative

definition Rel :: "string \<Rightarrow> string \<Rightarrow> rel_error + string" where
  "Rel basepath targpath =
     (let base = Clean basepath; targ = Clean targpath in
      if targ = base then Inr ''.''
      else
        let base' = (if base = ''.'' then [] else base) in
        if is_rooted base' \<noteq> is_rooted targ then Inl CantMakeRelative
        else
          (case drop_common (path_elems base') (path_elems targ) of
             (bs, ts) \<Rightarrow>
               if bs \<noteq> [] \<and> ts \<noteq> [] \<and> hd bs = ''..'' then Inl CantMakeRelative
               else if bs \<noteq> [] then Inr (join_slash (map (\<lambda>_. ''..'') bs @ ts))
               else Inr (join_slash ts)))"

definition ToSlash :: "string \<Rightarrow> string" where
  "ToSlash p = p"


section \<open>The file system\<close>

text \<open>
  The file system is a tree: a regular file holds its bytes, a directory holds its
  entries by name.  There are no symbolic links, no permissions and no full disk, so a
  system call fails only for the reasons the tree shows.  Modification times are not
  part of the model.
\<close>

datatype errno = ENOENT | ENOTDIR | EISDIR | EEXIST | ENOTEMPTY | EINVAL | EBUSY

datatype node = RegFile bytes | Directory "(string \<times> node) list"

fun lookup :: "node \<Rightarrow> string list \<Rightarrow> errno + node" where
  "lookup n [] = Inr n"
| "lookup (RegFile d) (c # cs) = Inl ENOTDIR"
| "lookup (Directory es) (c # cs) =
     (case map_of es c of None \<Rightarrow> Inl ENOENT | Some ch \<Rightarrow> lookup ch cs)"

fun fresh_dirs :: "string list \<Rightarrow> node" where
  "fresh_dirs [] = Directory []"
| "fresh_dirs (c # cs) = Directory [(c, fresh_dirs cs)]"

text \<open>
  The directory at the path and every missing directory above it.  A new entry is put
  at the end of its directory (\<open>AList.update\<close> replaces an entry or appends it).
\<close>

fun mkdir_all :: "node \<Rightarrow> string list \<Rightarrow> errno + node" where
  "mkdir_all (RegFile d) cs = Inl ENOTDIR"
| "mkdir_all (Directory es) [] = Inr (Directory es)"
| "mkdir_all (Directory es) (c # cs) =
     (case map_of es c of
        None \<Rightarrow> Inr (Directory (AList.update c (fresh_dirs cs) es))
      | Some ch \<Rightarrow>
          (case mkdir_all ch cs of
             Inl e \<Rightarrow> Inl e
           | Inr ch' \<Rightarrow> Inr (Directory (AList.update c ch' es))))"

text \<open>
  Opening a file for writing with creation and truncation, and storing the bytes: the
  directory above must exist, and the path must not name a directory.
\<close>

fun write_file :: "node \<Rightarrow> string list \<Rightarrow> bytes \<Rightarrow> errno + node" where
  "write_file (RegFile old) [] d = Inr (RegFile d)"
| "write_file (Directory es) [] d = Inl EISDIR"
| "write_file (RegFile old) (c # cs) d = Inl ENOTDIR"
| "write_file (Directory es) (c # cs) d =
     (case map_of es c of
        None \<Rightarrow>
          (if cs = [] then Inr (Directory (AList.update c (RegFile d) es)) else Inl ENOENT)
      | Some ch \<Rightarrow>
          (case write_file ch cs d of
             Inl e \<Rightarrow> Inl e
           | Inr ch' \<Rightarrow> Inr (Directory (AList.update c ch' es))))"

text \<open>Removing a file or an empty directory; the root of the tree cannot be removed.\<close>

fun remove_node :: "node \<Rightarrow> string list \<Rightarrow> errno + node" where
  "remove_node n [] = Inl EBUSY"
| "remove_node (RegFile d) (c # cs) = Inl ENOTDIR"
| "remove_node (Directory es) (c # cs) =
     (case map_of es c of
        None \<Rightarrow> Inl ENOENT
      | Some ch \<Rightarrow>
          if cs = [] then
            (case ch of
               RegFile d \<Rightarrow> Inr (Directory (AList.delete c es))
             | Directory sub \<Rightarrow>
                 if sub = [] then Inr (Directory (AList.delete c es)) else Inl ENOTEMPTY)
          else
            (case remove_node ch cs of
               Inl e \<Rightarrow> Inl e
             | Inr ch' \<Rightarrow> Inr (Directory (AList.update c ch' es))))"

text \<open>
  The state of the system: the tree, the working directory of the process (the place of
  a relative path), and the size the system reports for a directory.
\<close>

record fsys =
  tree :: node
  cwd :: "string list"
  dir_size :: int

text \<open>
  The place a path names, counted from the root of the tree: a rooted path starts at the
  root, a relative path at the working directory, and \<open>..\<close> steps up.  The paths the
  server hands to the system are results of \<open>filepath.Join\<close> and \<open>filepath.Dir\<close>
  and so are cleaned (the storage root in \<open>ListBuckets\<close> apart, which is used as it was
  given); in a cleaned path \<open>..\<close> stands only in front of a relative path.  The empty
  path names nothing.
\<close>

fun walk_elems :: "string list \<Rightarrow> string list \<Rightarrow> string list" where
  "walk_elems cur [] = cur"
| "walk_elems cur (e # es) =
     (if e = [] \<or> e = ''.'' then walk_elems cur es
      else if e = ''..'' then walk_elems (butlast cur) es
      else walk_elems (cur @ [e]) es)"

definition resolve :: "fsys \<Rightarrow> string \<Rightarrow> errno + string list" where
  "resolve fs name =
     (if name = [] then Inl ENOENT
      else Inr (walk_elems (if is_rooted name then [] else cwd fs) (split_slash name)))"

definition os_Stat :: "fsys \<Rightarrow> string \<Rightarrow> errno + node" where
  "os_Stat fs name =
     (case resolve fs name of Inl e \<Rightarrow> Inl e | Inr p \<Rightarrow> lookup (tree fs) p)"

definition IsDir :: "node \<Rightarrow> bool" where
  "IsDir n = (case n of RegFile d \<Rightarrow> False | Directory es \<Rightarrow> True)"

definition info_Size :: "fsys \<Rightarrow> node \<Rightarrow> int" where
  "info_Size fs n = (case n of RegFile d \<Rightarrow> int (length d) | Directory es \<Rightarrow> dir_size fs)"

definition os_MkdirAll :: "fsys \<Rightarrow> string \<Rightarrow> fsys \<times> errno option" where
  "os_MkdirAll fs name =
     (case resolve fs name of
        Inl e \<Rightarrow> (fs, Some e)
      | Inr p \<Rightarrow>
          (case mkdir_all (tree fs) p of
             Inl e \<Rightarrow> (fs, Some e)
           | Inr t \<Rightarrow> (fs\<lparr>tree := t\<rparr>, None)))"

text \<open>
  An error of Go code is the error of a system call, of \<open>filepath.Rel\<close> or of a
  reader (the one that matters here is \<open>io.ErrUnexpectedEOF\<close>), or such an error
  wrapped with a text by \<open>fmt.Errorf\<close>.
\<close>

datatype go_error =
  PathError errno | RelError rel_error | ErrUnexpectedEOF | Errorf string go_error

text \<open>
  An \<open>io.Reader\<close> is taken by what it gives when read to its end: the bytes it
  delivers, and then either the end of the stream or an error.  A reader over a byte
  slice delivers the slice and does not fail.
\<close>

datatype reader = Reader (delivered: bytes) (failure: "go_error option")

definition bytes_reader :: "bytes \<Rightarrow> reader" where
  "bytes_reader P = Reader P None"

text \<open>
  \<open>os.Create\<close> leaves an empty file and returns a handle to it, here the place of the
  file.  \<open>io.Copy\<close> writes through the handle the bytes the reader delivers, as they
  come, and returns the error of the write or else the error that ended the reading:
  the bytes delivered before a read error are in the file when the error is returned.
\<close>

definition os_Create :: "fsys \<Rightarrow> string \<Rightarrow> fsys \<times> (errno + string list)" where
  "os_Create fs name =
     (case resolve fs name of
        Inl e \<Rightarrow> (fs, Inl e)
      | Inr p \<Rightarrow>
          (case write_file (tree fs) p [] of
             Inl e \<Rightarrow> (fs, Inl e)
           | Inr t \<Rightarrow> (fs\<lparr>tree := t\<rparr>, Inr p)))"

definition io_Copy :: "fsys \<Rightarrow> string list \<Rightarrow> reader \<Rightarrow> fsys \<times> go_error option" where
  "io_Copy fs f src =
     (case write_file (tree fs) f (delivered src) of
        Inl e \<Rightarrow> (fs, Some (PathError e))
      | Inr t \<Rightarrow> (fs\<lparr>tree := t\<rparr>, failure src))"

text \<open>
  \<open>os.Open\<close> succeeds on a directory as well as on a file; reading the stream of a
  directory fails.
\<close>

definition os_Open :: "fsys \<Rightarrow> string \<Rightarrow> errno + node" where
  "os_Open fs name = os_Stat fs name"

definition ReadAll :: "node \<Rightarrow> errno + bytes" where
  "ReadAll f = (case f of RegFile d \<Rightarrow> Inr d | Directory es \<Rightarrow> Inl EISDIR)"

text \<open>
  \<open>os.Remove\<close>: the system refuses a path whose last element is \<open>.\<close> or \<open>..\<close>, and
  the root directory.
\<close>

definition os_Remove :: "fsys \<Rightarrow> string \<Rightarrow> fsys \<times> errno option" where
  "os_Remove fs name =
     (case resolve fs name of
        Inl e \<Rightarrow> (fs, Some e)
      | Inr p \<Rightarrow>
          if path_elems name \<noteq> [] \<and> last (path_elems name) = ''.'' then (fs, Some EINVAL)
          else if path_elems name \<noteq> [] \<and> last (path_elems name) = ''..''
          then (fs, Some ENOTEMPTY)
          else
            (case remove_node (tree fs) p of
               Inl e \<Rightarrow> (fs, Some e)
             | Inr t \<Rightarrow> (fs\<lparr>tree := t\<rparr>, None)))"

text \<open>\<open>os.ReadDir\<close>: the entries of a directory, sorted by name.\<close>

definition sorted_entries :: "(string \<times> node) list \<Rightarrow> (string \<times> node) list" where
  "sorted_entries es = sort_key fst es"

definition os_ReadDir :: "fsys \<Rightarrow> string \<Rightarrow> errno + (string \<times> node) list" where
  "os_ReadDir fs name =
     (case os_Stat fs name of
        Inl e \<Rightarrow> Inl e
      | Inr (RegFile d) \<Rightarrow> Inl ENOTDIR
      | Inr (Directory es) \<Rightarrow> Inr (sorted_entries es))"


text \<open>
  \<open>filepath.Walk\<close> visits the root and then, for a directory, each entry in the order
  of the names, the path of an entry being the join of the directory's path and the name;
  a root that cannot be examined is visited once, with the error.
\<close>

function walk :: "string \<Rightarrow> node \<Rightarrow> (string \<times> node) list" where
  "walk path (RegFile d) = [(path, RegFile d)]"
| "walk path (Directory es) =
     (path, Directory es) #
     concat (map (\<lambda>(name, ch). walk (Join [path, name]) ch) (sorted_entries es))"
  by pat_completeness auto
termination
proof (relation "measure (\<lambda>(p, n). size n)")
  show "wf (measure (\<lambda>(p, n). size n))" by simp
next
  fix path :: string and es :: "(string \<times> node) list" and x :: "string \<times> node"
    and name :: string and ch :: node
  assume "x \<in> set (sorted_entries es)" and "(name, ch) = x"
  then have "(name, ch) \<in> set es" by (simp add: sorted_entries_def)
  then have "size ch < Suc (size_list (size_prod (\<lambda>x. 0) size) es)"
    by (induction es) auto
  then show "((Join [path, name], ch), (path, Directory es)) \<in> measure (\<lambda>(p, n). size n)"
    by simp
qed

definition os_Lstat :: "fsys \<Rightarrow> string \<Rightarrow> errno + node" where
  "os_Lstat fs name = os_Stat fs name"

definition filepath_Walk :: "fsys \<Rightarrow> string \<Rightarrow> (string \<times> (errno + node)) list" where
  "filepath_Walk fs root =
     (case os_Lstat fs root of
        Inl e \<Rightarrow> [(root, Inl e)]
      | Inr info \<Rightarrow> map (\<lambda>(p, n). (p, Inr n)) (walk root info))"

section \<open>The storage backend\<close>

text \<open>
  The server holds its root directory; its lock is not modelled, each operation being
  one step on the state.  An error of the backend is the error of the call that failed,
  wrapped with the text of the operation.  An object is listed with its key and size,
  and with the entity tag the backend never sets; a bucket with its name.  The times of
  modification are left out.
\<close>

record S3Server =
  root :: string

record Object =
  Key :: string
  Size :: int
  ETag :: string

record Bucket =
  Name :: string

definition ListBuckets :: "S3Server \<Rightarrow> fsys \<Rightarrow> go_error + Bucket list" where
  "ListBuckets s fs =
     (case os_ReadDir fs (root s) of
        Inl e \<Rightarrow> Inl (Errorf ''failed to read buckets'' (PathError e))
      | Inr entries \<Rightarrow>
          Inr (map (\<lambda>entry. \<lparr>Name = fst entry\<rparr>) (filter (\<lambda>entry. IsDir (snd entry)) entries)))"

definition CreateBucket :: "S3Server \<Rightarrow> fsys \<Rightarrow> string \<Rightarrow> fsys \<times> go_error option" where
  "CreateBucket s fs bucket =
     (let bucketPath = Join [root s, bucket] in
      case os_MkdirAll fs bucketPath of
        (fs', Some e) \<Rightarrow> (fs', Some (Errorf ''failed to create bucket'' (PathError e)))
      | (fs', None) \<Rightarrow> (fs', None))"

definition DeleteBucket :: "S3Server \<Rightarrow> fsys \<Rightarrow> string \<Rightarrow> fsys \<times> go_error option" where
  "DeleteBucket s fs bucket =
     (let bucketPath = Join [root s, bucket] in
      case os_Remove fs bucketPath of
        (fs', Some e) \<Rightarrow> (fs', Some (Errorf ''failed to delete bucket'' (PathError e)))
      | (fs', None) \<Rightarrow> (fs', None))"

text \<open>The \<open>size\<close> argument of \<open>PutObject\<close> is not used in its body.\<close>

definition PutObject ::
  "S3Server \<Rightarrow> fsys \<Rightarrow> string \<Rightarrow> string \<Rightarrow> reader \<Rightarrow> int \<Rightarrow> fsys \<times> go_error option" where
  "PutObject s fs bucket key reader sz =
     (let objectPath = Join [root s, bucket, key] in
      case os_MkdirAll fs (Dir objectPath) of
        (fs1, Some e) \<Rightarrow>
          (fs1, Some (Errorf ''failed to create object directory'' (PathError e)))
      | (fs1, None) \<Rightarrow>
          (case os_Create fs1 objectPath of
             (fs2, Inl e) \<Rightarrow>
               (fs2, Some (Errorf ''failed to create object file'' (PathError e)))
           | (fs2, Inr f) \<Rightarrow>
               (case io_Copy fs2 f reader of
                  (fs3, Some e) \<Rightarrow> (fs3, Some (Errorf ''failed to write object'' e))
                | (fs3, None) \<Rightarrow> (fs3, None))))"

definition GetObject ::
  "S3Server \<Rightarrow> fsys \<Rightarrow> string \<Rightarrow> string \<Rightarrow> go_error + (node \<times> int)" where
  "GetObject s fs bucket key =
     (let objectPath = Join [root s, bucket, key] in
      case os_Stat fs objectPath of
        Inl e \<Rightarrow> Inl (Errorf ''failed to stat object'' (PathError e))
      | Inr info \<Rightarrow>
          (case os_Open fs objectPath of
             Inl e \<Rightarrow> Inl (Errorf ''failed to open object'' (PathError e))
           | Inr f \<Rightarrow> Inr (f, info_Size fs info)))"

definition DeleteObject ::
  "S3Server \<Rightarrow> fsys \<Rightarrow> string \<Rightarrow> string \<Rightarrow> fsys \<times> go_error option" where
  "DeleteObject s fs bucket key =
     (let objectPath = Join [root s, bucket, key] in
      case os_Remove fs objectPath of
        (fs', Some e) \<Rightarrow> (fs', Some (Errorf ''failed to delete object'' (PathError e)))
      | (fs', None) \<Rightarrow> (fs', None))"

text \<open>
  The function that \<open>ListObjects\<close> hands to \<open>filepath.Walk\<close>, run over the visits in
  order; the first error ends the walk.
\<close>

fun list_visits ::
  "fsys \<Rightarrow> string \<Rightarrow> string \<Rightarrow> (string \<times> (errno + node)) list \<Rightarrow> Object list
     \<Rightarrow> go_error + Object list" where
  "list_visits fs bucketPath pre [] objects = Inr objects"
| "list_visits fs bucketPath pre ((path, r) # vs) objects =
     (case r of
        Inl e \<Rightarrow> Inl (PathError e)
      | Inr info \<Rightarrow>
          if IsDir info then list_visits fs bucketPath pre vs objects
          else
            (case Rel bucketPath path of
               Inl e \<Rightarrow> Inl (RelError e)
             | Inr relPath \<Rightarrow>
                 let key = ToSlash relPath in
                 if pre = [] \<or> HasPrefix key pre
                 then list_visits fs bucketPath pre vs
                        (objects @ [\<lparr>Key = key, Size = info_Size fs info, ETag = []\<rparr>])
                 else list_visits fs bucketPath pre vs objects))"

definition ListObjects ::
  "S3Server \<Rightarrow> fsys \<Rightarrow> string \<Rightarrow> string \<Rightarrow> go_error + Object list" where
  "ListObjects s fs bucket pre =
     (let bucketPath = Join [root s, bucket] in
      case list_visits fs bucketPath pre (filepath_Walk fs bucketPath) [] of
        Inl e \<Rightarrow> Inl (Errorf ''failed to list objects'' e)
      | Inr objects \<Rightarrow> Inr objects)"


section \<open>The request dispatcher\<close>

text \<open>
  A request is its method, the path of its URL, the \<open>prefix\<close> parameter of its query
  (empty when absent), its body and its declared length (\<open>-1\<close> when the request
  declares none).  A response is the status, the content type and length the handler
  sets, and the body: nothing, the text of \<open>http.Error\<close>, one of the two XML
  documents, or the bytes of an object.  Writing to the client does not fail.
\<close>

record Request =
  Method :: string
  URL_Path :: string
  Query_prefix :: string
  Body :: reader
  ContentLength :: int

text \<open>
  The body \<open>net/http\<close> builds for a request it reads from a connection, from the
  declared length and the bytes of the body that the client sent.  It never delivers
  more than the declared length, and when the bytes end before that length the reading
  ends with \<open>io.ErrUnexpectedEOF\<close>.  A request that declares no length (chunked
  transfer) delivers the bytes of its chunks.
\<close>

definition http_body :: "int \<Rightarrow> bytes \<Rightarrow> reader" where
  "http_body declared sent =
     (if declared < 0 then Reader sent None
      else if nat declared \<le> length sent then Reader (take (nat declared) sent) None
      else Reader sent (Some ErrUnexpectedEOF))"

datatype message = ErrorText go_error | Literal string

datatype xml_result =
  ListAllMyBucketsResult "Bucket list"
| ListBucketResult string "Object list"

datatype body = NoBody | Text message | XML xml_result | Data bytes

record Response =
  Status :: nat
  Content_Type :: string
  Content_Length :: "int option"
  Written :: body

definition StatusOK :: nat where "StatusOK = 200"
definition StatusNoContent :: nat where "StatusNoContent = 204"
definition StatusBadRequest :: nat where "StatusBadRequest = 400"
definition StatusNotFound :: nat where "StatusNotFound = 404"
definition StatusMethodNotAllowed :: nat where "StatusMethodNotAllowed = 405"
definition StatusInternalServerError :: nat where "StatusInternalServerError = 500"

definition http_Error :: "message \<Rightarrow> nat \<Rightarrow> Response" where
  "http_Error msg code =
     \<lparr>Status = code, Content_Type = ''text/plain; charset=utf-8'',
      Content_Length = None, Written = Text msg\<rparr>"

definition WriteHeader :: "nat \<Rightarrow> Response" where
  "WriteHeader code =
     \<lparr>Status = code, Content_Type = [], Content_Length = None, Written = NoBody\<rparr>"

definition write_xml :: "xml_result \<Rightarrow> Response" where
  "write_xml x =
     \<lparr>Status = StatusOK, Content_Type = ''application/xml'',
      Content_Length = None, Written = XML x\<rparr>"

text \<open>
  Copying the stream of an object into the response after the status is sent: a stream
  that cannot be read (a directory) leaves the body empty.
\<close>

definition write_object :: "node \<Rightarrow> int \<Rightarrow> Response" where
  "write_object rc sz =
     \<lparr>Status = StatusOK, Content_Type = [], Content_Length = Some sz,
      Written = Data (case ReadAll rc of Inl e \<Rightarrow> [] | Inr d \<Rightarrow> d)\<rparr>"

definition ServeHTTP :: "S3Server \<Rightarrow> fsys \<Rightarrow> Request \<Rightarrow> fsys \<times> Response" where
  "ServeHTTP s fs r =
     (let path = TrimPrefix (URL_Path r) ''/'';
          parts = SplitN2 path
      in
      if path = [] \<and> Method r = ''GET'' then
        (case ListBuckets s fs of
           Inl err \<Rightarrow> (fs, http_Error (ErrorText err) StatusInternalServerError)
         | Inr buckets \<Rightarrow> (fs, write_xml (ListAllMyBucketsResult buckets)))
      else if length parts = 0 then
        (fs, http_Error (Literal ''Invalid request'') StatusBadRequest)
      else
        let bucket = parts ! 0;
            key = (if length parts > 1 then parts ! 1 else [])
        in
        if Method r = ''PUT'' then
          (if key = [] then
             (case CreateBucket s fs bucket of
                (fs', Some err) \<Rightarrow>
                  (fs', http_Error (ErrorText err) StatusInternalServerError)
              | (fs', None) \<Rightarrow> (fs', WriteHeader StatusOK))
           else
             (case PutObject s fs bucket key (Body r) (ContentLength r) of
                (fs', Some err) \<Rightarrow>
                  (fs', http_Error (ErrorText err) StatusInternalServerError)
              | (fs', None) \<Rightarrow> (fs', WriteHeader StatusOK)))
        else if Method r = ''GET'' then
          (if key = [] then
             (case ListObjects s fs bucket (Query_prefix r) of
                Inl err \<Rightarrow> (fs, http_Error (ErrorText err) StatusInternalServerError)
              | Inr objects \<Rightarrow> (fs, write_xml (ListBucketResult bucket objects)))
           else
             (case GetObject s fs bucket key of
                Inl err \<Rightarrow> (fs, http_Error (ErrorText err) StatusNotFound)
              | Inr (rc, sz) \<Rightarrow> (fs, write_object rc sz)))
        else if Method r = ''DELETE'' then
          (if key = [] then
             (case DeleteBucket s fs bucket of
                (fs', Some err) \<Rightarrow>
                  (fs', http_Error (ErrorText err) StatusInternalServerError)
              | (fs', None) \<Rightarrow> (fs', WriteHeader StatusNoContent))
           else
             (case DeleteObject s fs bucket key of
                (fs', Some err) \<Rightarrow>
                  (fs', http_Error (ErrorText err) StatusInternalServerError)
              | (fs', None) \<Rightarrow> (fs', WriteHeader StatusNoContent)))
        else
          (fs, http_Error (Literal ''Method not allowed'') StatusMethodNotAllowed))"

section \<open>Names and cleaned paths\<close>

definition valid_name :: "string \<Rightarrow> bool" where
  "valid_name e = (e \<noteq> [] \<and> e \<noteq> ''.'' \<and> e \<noteq> ''..'' \<and> CHR ''/'' \<notin> set e)"

fun normal :: "bool \<Rightarrow> string list \<Rightarrow> bool" where
  "normal r [] = True"
| "normal r (e # es) =
     (if e = ''..'' then \<not> r \<and> normal r es else valid_name e \<and> (\<forall>x\<in>set es. valid_name x))"


text \<open>The directory from which a rooted or a relative path is followed.\<close>

definition start_dir :: "fsys \<Rightarrow> bool \<Rightarrow> string list" where
  "start_dir fs r = (if r then [] else cwd fs)"


text \<open>
  A well-formed tree: the names in a directory are distinct, and each is a proper name,
  not empty, not \<open>.\<close> or \<open>..\<close>, and free of slashes.  Every file system is of this
  kind.
\<close>

fun wf_node :: "node \<Rightarrow> bool" where
  "wf_node (RegFile d) = True"
| "wf_node (Directory es) =
     (distinct (map fst es) \<and> (\<forall>x\<in>set es. valid_name (fst x) \<and> wf_node (snd x)))"

definition wf_fs :: "fsys \<Rightarrow> bool" where
  "wf_fs fs = (wf_node (tree fs) \<and> (\<forall>n\<in>set (cwd fs). valid_name n))"


text \<open>The bucket and the key the dispatcher reads from the path of a request.\<close>

definition request_path :: "Request \<Rightarrow> string" where
  "request_path r = TrimPrefix (URL_Path r) ''/''"

definition request_bucket :: "Request \<Rightarrow> string" where
  "request_bucket r = SplitN2 (request_path r) ! 0"

definition request_key :: "Request \<Rightarrow> string" where
  "request_key r =
     (let parts = SplitN2 (request_path r) in if length parts > 1 then parts ! 1 else [])"

text \<open>A path that ends in a proper name: the directory it names has an entry in its parent.\<close>

definition ends_in_name :: "string \<Rightarrow> bool" where
  "ends_in_name p = (path_elems p \<noteq> [] \<and> valid_name (last (path_elems p)))"

text \<open>
  A key in canonical form is made of proper names with one slash between them.  An
  object exists under a key when the path of the key names a regular file.
\<close>

definition canonical_key :: "string \<Rightarrow> bool" where
  "canonical_key k = (\<forall>e\<in>set (split_slash k). valid_name e)"

definition object_at :: "S3Server \<Rightarrow> fsys \<Rightarrow> string \<Rightarrow> string \<Rightarrow> bool" where
  "object_at s fs b k =
     (case os_Stat fs (Join [root s, b, k]) of
        Inl e \<Rightarrow> False
      | Inr (RegFile d) \<Rightarrow> True
      | Inr (Directory es) \<Rightarrow> False)"

text \<open>Writing a list of objects into a bucket, one after the other, all with success.\<close>

fun put_all :: "S3Server \<Rightarrow> fsys \<Rightarrow> string \<Rightarrow> (string \<times> bytes) list \<Rightarrow> fsys option" where
  "put_all s fs b [] = Some fs"
| "put_all s fs b ((k, P) # rest) =
     (case PutObject s fs b k (bytes_reader P) (int (length P)) of
        (fs', None) \<Rightarrow> put_all s fs' b rest
      | (fs', Some err) \<Rightarrow> None)"

section \<open>Sample states\<close>

definition srv :: S3Server where
  "srv = \<lparr>root = ''/data''\<rparr>"

text \<open>
  A request as the HTTP server reads it: the method, the path, the declared length and
  the bytes of the body the client sent; and the request of a client that declares the
  length of what it sends.
\<close>

definition server_request :: "string \<Rightarrow> string \<Rightarrow> int \<Rightarrow> bytes \<Rightarrow> Request" where
  "server_request m p declared sent =
     \<lparr>Method = m, URL_Path = p, Query_prefix = [], Body = http_body declared sent,
      ContentLength = declared\<rparr>"

definition request :: "string \<Rightarrow> string \<Rightarrow> bytes \<Rightarrow> Request" where
  "request m p b = server_request m p (int (length b)) b"

text \<open>A storage root without buckets.\<close>

definition fs_empty :: fsys where
  "fs_empty = \<lparr>tree = Directory [(''data'', Directory [])], cwd = [], dir_size = 4096\<rparr>"

text \<open>A regular file in the place of the storage root.\<close>

definition fs_blocked :: fsys where
  "fs_blocked = \<lparr>tree = Directory [(''data'', RegFile ''x'')], cwd = [], dir_size = 4096\<rparr>"

text \<open>Bucket \<open>b\<close> with the object \<open>dir/nested.txt\<close>, and the empty bucket \<open>c\<close>.\<close>

definition fs_nested :: fsys where
  "fs_nested =
     \<lparr>tree = Directory [(''data'', Directory
        [(''b'', Directory [(''dir'', Directory [(''nested.txt'', RegFile ''abc'')])]),
         (''c'', Directory [])])],
      cwd = [], dir_size = 4096\<rparr>"



text \<open>Bucket \<open>b\<close> with four objects at different depths.\<close>

definition fs_listing :: fsys where
  "fs_listing =
     \<lparr>tree = Directory [(''data'', Directory
        [(''b'', Directory
           [(''dirx'', RegFile ''1''),
            (''dir'', Directory
               [(''sub'', Directory [(''deep.txt'', RegFile ''22'')]),
                (''nested.txt'', RegFile ''333'')]),
            (''a.txt'', RegFile ''4444'')])])],
      cwd = [], dir_size = 4096\<rparr>"

text \<open>The state \<open>fs_nested\<close> after three objects are stored in bucket \<open>c\<close>.\<close>

definition fs_filled :: fsys where
  "fs_filled =
     \<lparr>tree = Directory [(''data'', Directory
        [(''b'', Directory [(''dir'', Directory [(''nested.txt'', RegFile ''abc'')])]),
         (''c'', Directory
            [(''x'', RegFile ''1''),
             (''dir'', Directory
                [(''sub'', Directory [(''deep.txt'', RegFile ''22'')]),
                 (''n.txt'', RegFile ''333'')])])])],
      cwd = [], dir_size = 4096\<rparr>"

text \<open>The state \<open>fs_nested\<close> after the key \<open>a//b\<close> is stored in bucket \<open>c\<close>.\<close>

definition fs_doubled :: fsys where
  "fs_doubled =
     \<lparr>tree = Directory [(''data'', Directory
        [(''b'', Directory [(''dir'', Directory [(''nested.txt'', RegFile ''abc'')])]),
         (''c'', Directory [(''a'', Directory [(''b'', RegFile ''P'')])])])],
      cwd = [], dir_size = 4096\<rparr>"

text \<open>The state \<open>fs_empty\<close> after bucket \<open>b\<close> is created.\<close>

definition fs_one_bucket :: fsys where
  "fs_one_bucket =
     \<lparr>tree = Directory [(''data'', Directory [(''b'', Directory [])])],
      cwd = [], dir_size = 4096\<rparr>"

text \<open>
  The state \<open>fs_empty\<close> after the key \<open>.\<close> is stored in bucket \<open>plain\<close>: a
  regular file in the place of a bucket.
\<close>

definition fs_plain :: fsys where
  "fs_plain =
     \<lparr>tree = Directory [(''data'', Directory [(''plain'', RegFile ''x'')])],
      cwd = [], dir_size = 4096\<rparr>"

text \<open>
  A server whose storage root is the working directory, \<open>.\<close>, in a state where that
  directory is empty; and a server whose storage root is the root of the file system.
\<close>

definition srv_here :: S3Server where
  "srv_here = \<lparr>root = ''.''\<rparr>"

definition fs_here :: fsys where
  "fs_here = \<lparr>tree = Directory [(''work'', Directory [])], cwd = [''work''], dir_size = 4096\<rparr>"

definition srv_top :: S3Server where
  "srv_top = \<lparr>root = ''/''\<rparr>"

definition fs_bare :: fsys where
  "fs_bare = \<lparr>tree = Directory [], cwd = [], dir_size = 4096\<rparr>"

section \<open>Properties of the path functions\<close>

lemma split_slash_not_Nil [simp]: "split_slash s \<noteq> []"
  by (induction s) (auto split: list.splits)

lemma split_slash_append:
  "split_slash (a @ CHR ''/'' # b) = split_slash a @ split_slash b"
  by (induction a) (auto split: list.splits)

lemma split_slash_no_slash: "CHR ''/'' \<notin> set a \<Longrightarrow> split_slash a = [a]"
  by (induction a) auto

lemma split_slash_elems: "e \<in> set (split_slash s) \<Longrightarrow> CHR ''/'' \<notin> set e"
proof (induction s arbitrary: e)
  case Nil
  then show ?case by simp
next
  case (Cons c s)
  obtain x xs where sp: "split_slash s = x # xs"
    by (cases "split_slash s") auto
  with Cons show ?case by (auto split: if_splits)
qed

lemma split_join_slash:
  "xs \<noteq> [] \<Longrightarrow> \<forall>x\<in>set xs. CHR ''/'' \<notin> set x \<Longrightarrow> split_slash (join_slash xs) = xs"
proof (induction xs rule: join_slash.induct)
  case 1
  then show ?case by simp
next
  case (2 x)
  then show ?case by (simp add: split_slash_no_slash)
next
  case (3 x y ys)
  then show ?case by (simp add: split_slash_append split_slash_no_slash)
qed

lemma join_slash_snoc:
  "xs \<noteq> [] \<Longrightarrow> join_slash (xs @ [n]) = join_slash xs @ CHR ''/'' # n"
  by (induction xs rule: join_slash.induct) auto

lemma clean_elems_append:
  "clean_elems r out (xs @ ys) = clean_elems r (clean_elems r out xs) ys"
  by (induction xs arbitrary: out) auto

lemma normal_elem: "normal r xs \<Longrightarrow> e \<in> set xs \<Longrightarrow> e = ''..'' \<or> valid_name e"
  by (induction xs) (auto split: if_splits)

lemma normal_no_slash: "normal r xs \<Longrightarrow> e \<in> set xs \<Longrightarrow> CHR ''/'' \<notin> set e"
  using normal_elem [of r xs e] by (auto simp: valid_name_def)

lemma normal_nonempty: "normal r xs \<Longrightarrow> e \<in> set xs \<Longrightarrow> e \<noteq> []"
  using normal_elem [of r xs e] by (auto simp: valid_name_def)

lemma normal_snoc_name: "normal r out \<Longrightarrow> valid_name e \<Longrightarrow> normal r (out @ [e])"
  by (induction out) (auto simp: valid_name_def)

lemma normal_snoc_dotdot:
  "normal r out \<Longrightarrow> \<not> r \<Longrightarrow> out = [] \<or> last out = ''..'' \<Longrightarrow> normal r (out @ [''..''])"
  by (induction out) (auto simp: valid_name_def split: if_splits)

lemma normal_butlast: "normal r out \<Longrightarrow> normal r (butlast out)"
  by (induction out) (auto dest: in_set_butlastD)

lemma normal_rooted_names: "normal True out \<Longrightarrow> \<forall>x\<in>set out. valid_name x"
  by (cases out) (auto split: if_splits)

lemma normal_clean_elems:
  "normal r out \<Longrightarrow> \<forall>e\<in>set es. CHR ''/'' \<notin> set e \<Longrightarrow> normal r (clean_elems r out es)"
proof (induction es arbitrary: out)
  case Nil
  then show ?case by simp
next
  case (Cons e es)
  have rest: "\<forall>e\<in>set es. CHR ''/'' \<notin> set e" using Cons.prems by simp
  show ?case
  proof (cases "e = [] \<or> e = ''.''")
    case True
    then show ?thesis using Cons.IH [OF Cons.prems(1) rest] by auto
  next
    case False
    note ne = this
    show ?thesis
    proof (cases "e = ''..''")
      case True
      show ?thesis
      proof (cases "out \<noteq> [] \<and> last out \<noteq> ''..''")
        case True
        with \<open>e = ''..''\<close> show ?thesis
          using Cons.IH [OF normal_butlast [OF Cons.prems(1)] rest] by simp
      next
        case False
        note F = this
        show ?thesis
        proof (cases r)
          case True
          with F \<open>e = ''..''\<close> show ?thesis
            using Cons.IH [OF Cons.prems(1) rest] by auto
        next
          case False
          have "normal r (out @ [''..''])"
            using normal_snoc_dotdot [OF Cons.prems(1) False] F by blast
          from Cons.IH [OF this rest] show ?thesis
            using False F \<open>e = ''..''\<close> by auto
        qed
      qed
    next
      case False
      then have "valid_name e" using ne Cons.prems(2) by (simp add: valid_name_def)
      from Cons.IH [OF normal_snoc_name [OF Cons.prems(1) this] rest]
      show ?thesis using False ne by simp
    qed
  qed
qed

lemma not_valid_name_dotdot: "\<not> valid_name ''..''"
  by (simp add: valid_name_def)

lemma normal_append_dotdot:
  "normal r (acc @ ''..'' # rest) \<Longrightarrow> \<not> r \<and> (\<forall>x\<in>set acc. x = ''..'')"
proof (induction acc)
  case Nil
  then show ?case by simp
next
  case (Cons a acc)
  show ?case
  proof (cases "a = ''..''")
    case True
    with Cons.prems have "normal r (acc @ ''..'' # rest)" by (cases r) auto
    from Cons.IH [OF this] True show ?thesis by simp
  next
    case False
    with Cons.prems have "valid_name ''..''" by simp
    then show ?thesis by (simp add: not_valid_name_dotdot)
  qed
qed

lemma clean_elems_normal:
  "normal r (acc @ out) \<Longrightarrow> clean_elems r acc out = acc @ out"
proof (induction out arbitrary: acc)
  case Nil
  then show ?case by simp
next
  case (Cons e out)
  have n': "normal r ((acc @ [e]) @ out)" using Cons.prems by simp
  show ?case
  proof (cases "e = ''..''")
    case True
    with Cons.prems have nr: "\<not> r" and dd: "\<forall>x\<in>set acc. x = ''..''"
      using normal_append_dotdot [of r acc out] by auto
    from dd have "acc = [] \<or> last acc = ''..''" by (cases acc rule: rev_cases) auto
    with nr True Cons.IH [OF n'] show ?thesis by auto
  next
    case False
    have "e \<in> set (acc @ e # out)" by simp
    from normal_elem [OF Cons.prems this] False have "valid_name e" by simp
    with False Cons.IH [OF n'] show ?thesis by (auto simp: valid_name_def)
  qed
qed

lemma join_slash_hd: "xs \<noteq> [] \<Longrightarrow> hd xs \<noteq> [] \<Longrightarrow> hd (join_slash xs) = hd (hd xs)"
  by (induction xs rule: join_slash.induct) auto

lemma join_slash_nonempty: "xs \<noteq> [] \<Longrightarrow> hd xs \<noteq> [] \<Longrightarrow> join_slash xs \<noteq> []"
  by (induction xs rule: join_slash.induct) auto

lemma render_nonempty: "normal r out \<Longrightarrow> render r out \<noteq> []"
proof (cases "r \<or> out = []")
  case True
  then show ?thesis by (auto simp: render_def)
next
  case False
  assume "normal r out"
  with False have "hd out \<noteq> []" using normal_nonempty [of r out "hd out"] by simp
  with False show ?thesis using join_slash_nonempty [of out] by (simp add: render_def)
qed

lemma is_rooted_render: "normal r out \<Longrightarrow> is_rooted (render r out) = r"
proof (cases r)
  case True
  then show ?thesis by (simp add: render_def is_rooted_def)
next
  case False
  assume n: "normal r out"
  show ?thesis
  proof (cases out)
    case Nil
    with False show ?thesis by (simp add: render_def is_rooted_def)
  next
    case (Cons x xs)
    from n Cons have "x \<noteq> []" and "CHR ''/'' \<notin> set x"
      using normal_nonempty [of r out x] normal_no_slash [of r out x] by auto
    then have "hd x \<noteq> CHR ''/''" by (cases x) auto
    with Cons \<open>x \<noteq> []\<close> False show ?thesis
      using join_slash_hd [of out] by (simp add: render_def is_rooted_def)
  qed
qed

lemma clean_split_render:
  assumes "normal r out"
  shows "clean_elems r [] (split_slash (render r out)) = out"
proof -
  have ns: "\<forall>x\<in>set out. CHR ''/'' \<notin> set x"
    using assms normal_no_slash by blast
  have cl: "clean_elems r [] out = out"
    using clean_elems_normal [of r "[]" out] assms by simp
  show ?thesis
  proof (cases "out = []")
    case True
    then show ?thesis by (simp add: render_def)
  next
    case False
    then have sp: "split_slash (join_slash out) = out"
      using split_join_slash ns by blast
    show ?thesis
    proof (cases r)
      case True
      have "split_slash (render r out) = [] # out"
        using True sp split_slash_append [of "[]" "join_slash out"] by (simp add: render_def)
      then show ?thesis using cl by simp
    next
      case False
      with \<open>out \<noteq> []\<close> sp cl show ?thesis by (simp add: render_def)
    qed
  qed
qed

lemma Clean_render: "normal r out \<Longrightarrow> Clean (render r out) = render r out"
  by (simp add: Clean_def render_nonempty is_rooted_render clean_split_render)

lemma Clean_form:
  assumes "p \<noteq> []"
  shows "normal (is_rooted p) (clean_elems (is_rooted p) [] (split_slash p))"
    and "Clean p = render (is_rooted p) (clean_elems (is_rooted p) [] (split_slash p))"
proof -
  show "normal (is_rooted p) (clean_elems (is_rooted p) [] (split_slash p))"
    by (rule normal_clean_elems) (auto dest: split_slash_elems)
  show "Clean p = render (is_rooted p) (clean_elems (is_rooted p) [] (split_slash p))"
    using assms by (simp add: Clean_def)
qed

lemma Clean_idem: "Clean (Clean p) = Clean p"
proof (cases "p = []")
  case True
  have "normal False []" by simp
  from Clean_render [OF this] True show ?thesis by (simp add: Clean_def render_def)
next
  case False
  from Clean_form [OF False] Clean_render show ?thesis by metis
qed

lemma Clean_extend:
  assumes "normal r out" and "\<forall>n\<in>set ns. valid_name n"
  shows "Clean (render r out @ CHR ''/'' # join_slash ns) = render r (out @ ns)"
proof -
  let ?p = "render r out @ CHR ''/'' # join_slash ns"
  have ne: "?p \<noteq> []" by simp
  have rt: "is_rooted ?p = r"
    using is_rooted_render [OF assms(1)] render_nonempty [OF assms(1)]
    by (simp add: is_rooted_def)
  have nsl: "\<forall>x\<in>set ns. CHR ''/'' \<notin> set x"
    using assms(2) by (simp add: valid_name_def)
  have nrm: "normal r (out @ ns)"
    using assms(2) assms(1)
  proof (induction ns rule: rev_induct)
    case Nil
    then show ?case by simp
  next
    case (snoc n ns)
    then have "normal r (out @ ns)" by simp
    from normal_snoc_name [OF this] snoc.prems show ?case by simp
  qed
  have "clean_elems r [] (split_slash ?p)
          = clean_elems r out (split_slash (join_slash ns))"
    by (simp add: split_slash_append clean_elems_append clean_split_render [OF assms(1)])
  also have "\<dots> = out @ ns"
  proof (cases "ns = []")
    case True
    then show ?thesis by simp
  next
    case False
    then have "split_slash (join_slash ns) = ns" using split_join_slash nsl by blast
    then show ?thesis using clean_elems_normal [OF nrm] by simp
  qed
  finally show ?thesis using ne rt by (simp add: Clean_def)
qed

lemma normal_append_names:
  "normal r out \<Longrightarrow> \<forall>n\<in>set ns. valid_name n \<Longrightarrow> normal r (out @ ns)"
proof (induction ns rule: rev_induct)
  case Nil
  then show ?case by simp
next
  case (snoc n ns)
  then have "normal r (out @ ns)" by simp
  from normal_snoc_name [OF this] snoc.prems show ?case by simp
qed

lemma walk_elems_append:
  "walk_elems cur (xs @ ys) = walk_elems (walk_elems cur xs) ys"
  by (induction xs arbitrary: cur) auto

lemma walk_elems_names: "\<forall>n\<in>set ns. valid_name n \<Longrightarrow> walk_elems cur ns = cur @ ns"
proof (induction ns arbitrary: cur)
  case Nil
  then show ?case by simp
next
  case (Cons n ns)
  then have "n \<noteq> []" "n \<noteq> ''.''" "n \<noteq> ''..''" by (simp_all add: valid_name_def)
  with Cons show ?case by simp
qed

lemma walk_split_render:
  assumes "normal r out"
  shows "walk_elems cur (split_slash (render r out)) = walk_elems cur out"
proof -
  have ns: "\<forall>x\<in>set out. CHR ''/'' \<notin> set x"
    using assms normal_no_slash by blast
  show ?thesis
  proof (cases "out = []")
    case True
    then show ?thesis by (simp add: render_def)
  next
    case False
    then have sp: "split_slash (join_slash out) = out"
      using split_join_slash ns by blast
    show ?thesis
    proof (cases r)
      case True
      have "split_slash (render r out) = [] # out"
        using True sp split_slash_append [of "[]" "join_slash out"] by (simp add: render_def)
      then show ?thesis by simp
    next
      case False
      with \<open>out \<noteq> []\<close> sp show ?thesis by (simp add: render_def)
    qed
  qed
qed

lemma resolve_render:
  "normal r out \<Longrightarrow> resolve fs (render r out) = Inr (walk_elems (start_dir fs r) out)"
  by (simp add: resolve_def render_nonempty is_rooted_render walk_split_render start_dir_def)

lemma resolve_render_names:
  "normal r out \<Longrightarrow> \<forall>n\<in>set ns. valid_name n \<Longrightarrow>
     resolve fs (render r (out @ ns)) = Inr (walk_elems (start_dir fs r) out @ ns)"
  using resolve_render [OF normal_append_names, of r out ns fs]
  by (simp add: walk_elems_append walk_elems_names)

lemma Clean_slash_names:
  assumes "p \<noteq> []" and "\<forall>n\<in>set ns. valid_name n"
  shows "Clean (p @ CHR ''/'' # join_slash ns)
           = render (is_rooted p) (clean_elems (is_rooted p) [] (split_slash p) @ ns)"
proof -
  from Clean_form [OF assms(1)]
  have n: "normal (is_rooted p) (clean_elems (is_rooted p) [] (split_slash p))"
    and c: "Clean p = render (is_rooted p) (clean_elems (is_rooted p) [] (split_slash p))"
    by simp_all
  let ?r = "is_rooted p" and ?out = "clean_elems (is_rooted p) [] (split_slash p)"
  have rt: "is_rooted (p @ CHR ''/'' # join_slash ns) = ?r"
    using assms(1) by (simp add: is_rooted_def)
  have nsl: "\<forall>x\<in>set ns. CHR ''/'' \<notin> set x"
    using assms(2) by (simp add: valid_name_def)
  have "clean_elems ?r [] (split_slash (p @ CHR ''/'' # join_slash ns))
          = clean_elems ?r ?out (split_slash (join_slash ns))"
    by (simp add: split_slash_append clean_elems_append)
  also have "\<dots> = ?out @ ns"
  proof (cases "ns = []")
    case True
    then show ?thesis by simp
  next
    case False
    then have "split_slash (join_slash ns) = ns" using split_join_slash nsl by blast
    then show ?thesis
      using clean_elems_normal [OF normal_append_names [OF n assms(2)]] by simp
  qed
  finally show ?thesis using rt by (simp add: Clean_def)
qed

lemma Join_bucket_form:
  assumes "Join [rt, b] \<noteq> []"
  obtains r out where "normal r out" and "Join [rt, b] = render r out"
    and "\<And>ns. \<forall>n\<in>set ns. valid_name n \<Longrightarrow> Join [rt, b, join_slash ns] = render r (out @ ns)"
proof -
  define p where "p = (if rt = [] then b else rt @ CHR ''/'' # b)"
  have pne: "p \<noteq> []" using assms by (auto simp: p_def Join_def)
  have j2: "Join [rt, b] = Clean p"
    using pne by (auto simp: p_def Join_def)
  have j3: "Join [rt, b, k] = Clean (p @ CHR ''/'' # k)" for k
    using pne by (auto simp: p_def Join_def)
  let ?r = "is_rooted p" and ?out = "clean_elems (is_rooted p) [] (split_slash p)"
  have "normal ?r ?out" and "Join [rt, b] = render ?r ?out"
    using Clean_form [OF pne] j2 by simp_all
  moreover have "Join [rt, b, join_slash ns] = render ?r (?out @ ns)"
    if "\<forall>n\<in>set ns. valid_name n" for ns
    using Clean_slash_names [OF pne that] j3 by simp
  ultimately show ?thesis using that by blast
qed

lemma Join_child:
  assumes "normal r out" and "valid_name n"
  shows "Join [render r out, n] = render r (out @ [n])"
proof -
  have "n \<noteq> []" using assms(2) by (simp add: valid_name_def)
  then have "Join [render r out, n] = Clean (render r out @ CHR ''/'' # join_slash [n])"
    using render_nonempty [OF assms(1)] by (simp add: Join_def)
  then show ?thesis using Clean_extend [OF assms(1), of "[n]"] assms(2) by simp
qed

lemma render_snoc_cut:
  assumes "normal r out" and "valid_name n"
  obtains q where "render r (out @ [n]) = q @ n" and "q = [] \<or> last q = CHR ''/''"
    and "Clean q = render r out"
proof (cases "out = []")
  case True
  show ?thesis
  proof (cases r)
    case True
    have "render r (out @ [n]) = ''/'' @ n" "Clean ''/'' = render r out"
      using True \<open>out = []\<close> by (simp_all add: render_def Clean_def is_rooted_def)
    then show ?thesis using that [of "''/''"] by simp
  next
    case False
    have "render r (out @ [n]) = [] @ n" "Clean [] = render r out"
      using False \<open>out = []\<close> by (simp_all add: render_def Clean_def)
    then show ?thesis using that [of "[]"] by simp
  qed
next
  case False
  have "render r (out @ [n]) = (render r out @ ''/'') @ n"
    using False by (simp add: render_def join_slash_snoc)
  moreover have "Clean (render r out @ ''/'') = render r out"
    using Clean_extend [OF assms(1), of "[]"] by simp
  ultimately show ?thesis using that [of "render r out @ ''/''"] by simp
qed

lemma Dir_cut:
  assumes "CHR ''/'' \<notin> set n" and "q = [] \<or> last q = CHR ''/''"
  shows "Dir (q @ n) = Clean q"
proof -
  have "dropWhile (\<lambda>c. c \<noteq> CHR ''/'') (rev n @ rev q) = dropWhile (\<lambda>c. c \<noteq> CHR ''/'') (rev q)"
    using assms(1) by (simp add: dropWhile_append)
  also have "\<dots> = rev q"
    using assms(2) by (cases q rule: rev_cases) auto
  finally show ?thesis by (simp add: Dir_def)
qed

lemma Dir_render_snoc:
  assumes "normal r out" and "valid_name n"
  shows "Dir (render r (out @ [n])) = render r out"
proof -
  from render_snoc_cut [OF assms] obtain q where
    "render r (out @ [n]) = q @ n" "q = [] \<or> last q = CHR ''/''" "Clean q = render r out"
    by blast
  moreover have "CHR ''/'' \<notin> set n" using assms(2) by (simp add: valid_name_def)
  ultimately show ?thesis using Dir_cut by simp
qed

lemma drop_common_prefix: "drop_common xs (xs @ ys) = ([], ys)"
  by (induction xs) simp_all

lemma render_dot: "normal r out \<Longrightarrow> (render r out = ''.'') = (\<not> r \<and> out = [])"
proof
  assume n: "normal r out" and eq: "render r out = ''.''"
  have "is_rooted (render r out) = r" by (rule is_rooted_render [OF n])
  then have nr: "\<not> r" unfolding eq by (simp add: is_rooted_def)
  have "clean_elems r [] (split_slash (render r out)) = out"
    by (rule clean_split_render [OF n])
  then have "out = []" unfolding eq by simp
  with nr show "\<not> r \<and> out = []" by simp
next
  assume "\<not> r \<and> out = []"
  then show "render r out = ''.''" by (simp add: render_def)
qed

lemma path_elems_render:
  assumes "normal r out" and "r \<or> out \<noteq> []"
  shows "path_elems (render r out) = (if r then [[]] else []) @ out"
proof (cases "out = []")
  case True
  with assms(2) show ?thesis by (simp add: render_def path_elems_def)
next
  case False
  have ns: "\<forall>x\<in>set out. CHR ''/'' \<notin> set x"
    using assms(1) normal_no_slash by blast
  have sp: "split_slash (join_slash out) = out"
    using split_join_slash False ns by blast
  have "last out \<noteq> []"
    using normal_nonempty [OF assms(1), of "last out"] False by simp
  moreover have "split_slash (render r out) = (if r then [[]] else []) @ out"
    using sp False split_slash_append [of "[]" "join_slash out"] by (simp add: render_def)
  ultimately show ?thesis using False by (simp add: path_elems_def)
qed

lemma render_inj: "normal r a \<Longrightarrow> normal r b \<Longrightarrow> render r a = render r b \<Longrightarrow> a = b"
  using clean_split_render by metis

lemma Rel_descend:
  assumes "normal r out" and "\<forall>n\<in>set ns. valid_name n" and "ns \<noteq> []"
  shows "Rel (render r out) (render r (out @ ns)) = Inr (join_slash ns)"
proof -
  have n2: "normal r (out @ ns)" by (rule normal_append_names [OF assms(1,2)])
  have cb: "Clean (render r out) = render r out" by (rule Clean_render [OF assms(1)])
  have ct: "Clean (render r (out @ ns)) = render r (out @ ns)" by (rule Clean_render [OF n2])
  have neq: "render r (out @ ns) \<noteq> render r out"
    using render_inj [OF n2 assms(1)] assms(3) by auto
  define base' where "base' = (if render r out = ''.'' then [] else render r out)"
  have rb: "is_rooted base' = r"
    using render_dot [OF assms(1)] is_rooted_render [OF assms(1)]
    by (auto simp: base'_def is_rooted_def)
  have rt: "is_rooted (render r (out @ ns)) = r" by (rule is_rooted_render [OF n2])
  have eb: "path_elems base' = (if r then [[]] else []) @ out"
  proof (cases "render r out = ''.''")
    case True
    then have "\<not> r \<and> out = []" using render_dot [OF assms(1)] by simp
    with True show ?thesis by (simp add: base'_def path_elems_def)
  next
    case False
    then have "r \<or> out \<noteq> []" using render_dot [OF assms(1)] by blast
    from path_elems_render [OF assms(1) this] False show ?thesis by (simp add: base'_def)
  qed
  have et: "path_elems (render r (out @ ns)) = ((if r then [[]] else []) @ out) @ ns"
    using path_elems_render [OF n2] assms(3) by simp
  have dc: "drop_common (path_elems base') (path_elems (render r (out @ ns))) = ([], ns)"
    unfolding eb et by (rule drop_common_prefix)
  show ?thesis
    unfolding Rel_def cb ct Let_def
    using neq rb rt dc by (simp add: base'_def)
qed

lemma normal_last_name:
  "normal r acc \<Longrightarrow> acc \<noteq> [] \<Longrightarrow> last acc \<noteq> ''..'' \<Longrightarrow> valid_name (last acc)"
  using normal_elem [of r acc "last acc"] by auto

lemma walk_elems_snoc_name:
  "valid_name n \<Longrightarrow> walk_elems cur (xs @ [n]) = walk_elems cur xs @ [n]"
  by (simp add: walk_elems_append valid_name_def)

lemma walk_elems_snoc_dotdot:
  "walk_elems cur (xs @ [''..'']) = butlast (walk_elems cur xs)"
  by (simp add: walk_elems_append)

lemma walk_clean_elems:
  assumes "normal r acc" and "\<forall>e\<in>set xs. CHR ''/'' \<notin> set e" and "r \<longrightarrow> cur = []"
  shows "walk_elems cur (clean_elems r acc xs) = walk_elems (walk_elems cur acc) xs"
  using assms
proof (induction xs arbitrary: acc)
  case Nil
  then show ?case by simp
next
  case (Cons e xs)
  have rest: "\<forall>e\<in>set xs. CHR ''/'' \<notin> set e" using Cons.prems(2) by simp
  note IH = Cons.IH [OF _ rest Cons.prems(3)]
  show ?case
  proof (cases "e = [] \<or> e = ''.''")
    case True
    then show ?thesis using IH [OF Cons.prems(1)] by auto
  next
    case False
    note ne = this
    show ?thesis
    proof (cases "e = ''..''")
      case True
      note dd = this
      show ?thesis
      proof (cases "acc \<noteq> [] \<and> last acc \<noteq> ''..''")
        case True
        then have vn: "valid_name (last acc)"
          using normal_last_name [OF Cons.prems(1)] by simp
        have "walk_elems cur acc = walk_elems cur (butlast acc) @ [last acc]"
          using walk_elems_snoc_name [OF vn, of cur "butlast acc"] True by simp
        then have "butlast (walk_elems cur acc) = walk_elems cur (butlast acc)" by simp
        with True dd IH [OF normal_butlast [OF Cons.prems(1)]] show ?thesis by simp
      next
        case False
        note F = this
        show ?thesis
        proof (cases r)
          case True
          have "acc = []"
          proof (rule ccontr)
            assume "acc \<noteq> []"
            with F have "last acc = ''..''" by simp
            moreover have "valid_name (last acc)"
              using normal_rooted_names [of acc] Cons.prems(1) True \<open>acc \<noteq> []\<close> by simp
            ultimately show False by (simp add: not_valid_name_dotdot)
          qed
          with True dd F Cons.prems(3) IH [OF Cons.prems(1)] show ?thesis by simp
        next
          case False
          have "normal r (acc @ [''..''])"
            using normal_snoc_dotdot [OF Cons.prems(1) False] F by blast
          from IH [OF this] False F dd show ?thesis
            by (auto simp: walk_elems_snoc_dotdot)
        qed
      qed
    next
      case False
      then have vn: "valid_name e" using ne Cons.prems(2) by (simp add: valid_name_def)
      from IH [OF normal_snoc_name [OF Cons.prems(1) vn]] False ne show ?thesis
        by (simp add: walk_elems_snoc_name [OF vn])
    qed
  qed
qed

lemma resolve_Clean: "p \<noteq> [] \<Longrightarrow> resolve fs (Clean p) = resolve fs p"
proof -
  assume ne: "p \<noteq> []"
  let ?r = "is_rooted p"
  from Clean_form [OF ne]
  have n: "normal ?r (clean_elems ?r [] (split_slash p))"
    and c: "Clean p = render ?r (clean_elems ?r [] (split_slash p))" by simp_all
  have "walk_elems (start_dir fs ?r) (clean_elems ?r [] (split_slash p))
          = walk_elems (walk_elems (start_dir fs ?r) []) (split_slash p)"
    by (rule walk_clean_elems) (auto dest: split_slash_elems simp: start_dir_def)
  moreover have "resolve fs (Clean p)
      = Inr (walk_elems (start_dir fs ?r) (clean_elems ?r [] (split_slash p)))"
    unfolding c by (rule resolve_render [OF n])
  moreover have "resolve fs p = Inr (walk_elems (start_dir fs ?r) (split_slash p))"
    using ne by (simp add: resolve_def start_dir_def)
  ultimately show ?thesis by simp
qed

lemma Clean_trailing_slash: "p \<noteq> [] \<Longrightarrow> Clean (p @ ''/'') = Clean p"
  using Clean_slash_names [of p "[]"] Clean_form(2) [of p] by simp

lemma Join_root_empty: "rt \<noteq> [] \<Longrightarrow> Join [rt, []] = Clean rt"
  by (simp add: Join_def Clean_trailing_slash)

lemma os_Stat_Clean: "p \<noteq> [] \<Longrightarrow> os_Stat fs (Clean p) = os_Stat fs p"
  by (simp add: os_Stat_def resolve_Clean)

lemma os_Stat_nonempty: "os_Stat fs p = Inr n \<Longrightarrow> p \<noteq> []"
  by (auto simp: os_Stat_def resolve_def)

section \<open>Properties of the file system\<close>

lemma lookup_append:
  "lookup t (p @ q) = (case lookup t p of Inl e \<Rightarrow> Inl e | Inr n \<Rightarrow> lookup n q)"
proof (induction p arbitrary: t)
  case Nil
  then show ?case by simp
next
  case (Cons c p)
  show ?case
  proof (cases t)
    case (RegFile d)
    then show ?thesis by simp
  next
    case (Directory es)
    then show ?thesis using Cons.IH by (simp split: option.splits)
  qed
qed

lemma lookup_fresh_dirs: "lookup (fresh_dirs cs) cs = Inr (Directory [])"
  by (induction cs) auto

lemma fresh_dirs_no_file: "lookup (fresh_dirs cs) q \<noteq> Inr (RegFile d)"
proof (induction cs arbitrary: q)
  case Nil
  then show ?case by (cases q) auto
next
  case (Cons c cs)
  then show ?case by (cases q) auto
qed

lemma mkdir_all_existing:
  "lookup t p = Inr (Directory es) \<Longrightarrow> mkdir_all t p = Inr t"
proof (induction p arbitrary: t)
  case Nil
  then show ?case by simp
next
  case (Cons c p)
  show ?case
  proof (cases t)
    case (RegFile d)
    with Cons.prems show ?thesis by simp
  next
    case (Directory es')
    with Cons.prems obtain ch where ch: "map_of es' c = Some ch" "lookup ch p = Inr (Directory es)"
      by (auto split: option.splits)
    from Cons.IH [OF ch(2)] have "mkdir_all ch p = Inr ch" .
    moreover have "AList.update c ch es' = es'"
      using ch(1) by (simp add: update_triv)
    ultimately show ?thesis using Directory ch(1) by simp
  qed
qed

lemma mkdir_all_makes_dir:
  "mkdir_all t p = Inr t' \<Longrightarrow> \<exists>es. lookup t' p = Inr (Directory es)"
proof (induction p arbitrary: t t')
  case Nil
  then show ?case by (cases t) auto
next
  case (Cons c p)
  show ?case
  proof (cases t)
    case (RegFile d)
    with Cons.prems show ?thesis by simp
  next
    case (Directory es)
    show ?thesis
    proof (cases "map_of es c")
      case None
      with Cons.prems Directory have "t' = Directory (AList.update c (fresh_dirs p) es)" by simp
      then show ?thesis by (simp add: update_conv' lookup_fresh_dirs)
    next
      case (Some ch)
      with Cons.prems Directory obtain ch' where
        ch': "mkdir_all ch p = Inr ch'" "t' = Directory (AList.update c ch' es)"
        by (auto split: sum.splits)
      from Cons.IH [OF ch'(1)] ch'(2) show ?thesis by (simp add: update_conv')
    qed
  qed
qed

lemma mkdir_all_idem: "mkdir_all t p = Inr t' \<Longrightarrow> mkdir_all t' p = Inr t'"
  using mkdir_all_makes_dir mkdir_all_existing by blast

lemma remove_node_fails:
  "lookup t p = Inl e \<or> (\<exists>es. lookup t p = Inr (Directory es) \<and> es \<noteq> [])
     \<Longrightarrow> \<exists>e'. remove_node t p = Inl e'"
proof (induction p arbitrary: t)
  case Nil
  then show ?case by simp
next
  case (Cons c p)
  show ?case
  proof (cases t)
    case (RegFile d)
    then show ?thesis by simp
  next
    case (Directory es')
    show ?thesis
    proof (cases "map_of es' c")
      case None
      with Directory show ?thesis by simp
    next
      case (Some ch)
      show ?thesis
      proof (cases "p = []")
        case True
        with Cons.prems Directory Some show ?thesis by (cases ch) auto
      next
        case False
        from Cons.prems Directory Some
        have "lookup ch p = Inl e \<or> (\<exists>es. lookup ch p = Inr (Directory es) \<and> es \<noteq> [])"
          by simp
        from Cons.IH [OF this] obtain e' where "remove_node ch p = Inl e'" by blast
        with Directory Some False show ?thesis by simp
      qed
    qed
  qed
qed

lemma os_Remove_fails:
  assumes "os_Stat fs name = Inl e \<or> (\<exists>es. os_Stat fs name = Inr (Directory es) \<and> es \<noteq> [])"
  shows "\<exists>e'. os_Remove fs name = (fs, Some e')"
proof (cases "resolve fs name")
  case (Inl a)
  then show ?thesis by (simp add: os_Remove_def)
next
  case (Inr p)
  with assms have "lookup (tree fs) p = Inl e
      \<or> (\<exists>es. lookup (tree fs) p = Inr (Directory es) \<and> es \<noteq> [])"
    by (simp add: os_Stat_def)
  from remove_node_fails [OF this] obtain e' where "remove_node (tree fs) p = Inl e'" by blast
  with Inr show ?thesis by (simp add: os_Remove_def)
qed

lemma os_Remove_error_state: "os_Remove fs name = (fs', Some e) \<Longrightarrow> fs' = fs"
  by (auto simp: os_Remove_def split: sum.splits if_splits)

lemma resolve_tree_update [simp]: "resolve (fs\<lparr>tree := t\<rparr>) name = resolve fs name"
  by (simp add: resolve_def)

lemma os_MkdirAll_idem:
  assumes "os_MkdirAll fs name = (fs', None)"
  shows "os_MkdirAll fs' name = (fs', None)"
proof -
  from assms obtain p t where p: "resolve fs name = Inr p"
    and t: "mkdir_all (tree fs) p = Inr t" and fs': "fs' = fs\<lparr>tree := t\<rparr>"
    by (auto simp: os_MkdirAll_def split: sum.splits)
  have "resolve fs' name = Inr p" using p fs' by simp
  moreover have "mkdir_all (tree fs') p = Inr t" using mkdir_all_idem [OF t] fs' by simp
  ultimately show ?thesis using fs' by (simp add: os_MkdirAll_def)
qed

lemma os_MkdirAll_existing:
  assumes "os_Stat fs name = Inr (Directory es)"
  shows "os_MkdirAll fs name = (fs, None)"
proof -
  from assms obtain p where p: "resolve fs name = Inr p"
    and l: "lookup (tree fs) p = Inr (Directory es)"
    by (auto simp: os_Stat_def split: sum.splits)
  from mkdir_all_existing [OF l] p show ?thesis by (simp add: os_MkdirAll_def)
qed

lemma os_MkdirAll_makes_dir:
  assumes "os_MkdirAll fs name = (fs', None)"
  shows "\<exists>es. os_Stat fs' name = Inr (Directory es)"
proof -
  from assms obtain p t where p: "resolve fs name = Inr p"
    and t: "mkdir_all (tree fs) p = Inr t" and fs': "fs' = fs\<lparr>tree := t\<rparr>"
    by (auto simp: os_MkdirAll_def split: sum.splits)
  have "resolve fs' name = Inr p" using p fs' by simp
  with mkdir_all_makes_dir [OF t] fs' show ?thesis by (simp add: os_Stat_def)
qed

lemma os_MkdirAll_error_state: "os_MkdirAll fs name = (fs', Some e) \<Longrightarrow> fs' = fs"
  by (auto simp: os_MkdirAll_def split: sum.splits)


lemma write_file_again:
  "write_file t p d = Inr t' \<Longrightarrow> write_file t' p d' = write_file t p d'"
proof (induction p arbitrary: t t')
  case Nil
  then show ?case by (cases t) auto
next
  case (Cons c p)
  show ?case
  proof (cases t)
    case (RegFile old)
    with Cons.prems show ?thesis by simp
  next
    case (Directory es)
    show ?thesis
    proof (cases "map_of es c")
      case None
      with Cons.prems Directory have "p = []" "t' = Directory (AList.update c (RegFile d) es)"
        by (auto split: if_splits)
      with None Directory show ?thesis by (simp add: update_conv')
    next
      case (Some ch)
      with Cons.prems Directory obtain ch' where
        ch': "write_file ch p d = Inr ch'" "t' = Directory (AList.update c ch' es)"
        by (auto split: sum.splits)
      from Cons.IH [OF ch'(1)] ch'(2) Some Directory show ?thesis
        by (simp add: update_conv' split: sum.splits)
    qed
  qed
qed

lemma remove_node_empty_dir:
  "lookup t (p @ [n]) = Inr (Directory []) \<Longrightarrow>
     \<exists>t'. remove_node t (p @ [n]) = Inr t' \<and> lookup t' (p @ [n]) = Inl ENOENT"
proof (induction p arbitrary: t)
  case Nil
  show ?case
  proof (cases t)
    case (RegFile old)
    with Nil show ?thesis by simp
  next
    case (Directory es)
    with Nil show ?thesis by (auto simp: delete_conv' split: option.splits)
  qed
next
  case (Cons c p)
  show ?case
  proof (cases t)
    case (RegFile old)
    with Cons.prems show ?thesis by simp
  next
    case (Directory es)
    with Cons.prems obtain ch where ch: "map_of es c = Some ch"
      "lookup ch (p @ [n]) = Inr (Directory [])"
      by (auto split: option.splits)
    from Cons.IH [OF ch(2)] obtain ch' where
      "remove_node ch (p @ [n]) = Inr ch'" "lookup ch' (p @ [n]) = Inl ENOENT" by blast
    with ch(1) Directory show ?thesis by (simp add: update_conv')
  qed
qed

lemma ends_in_name_form:
  assumes "normal r out" and "ends_in_name (render r out)"
  obtains o' n where "out = o' @ [n]" and "valid_name n"
proof (cases "out = []")
  case True
  have "path_elems (render r out) = [[]] \<or> path_elems (render r out) = [''.'']"
    using True by (cases r) (simp_all add: render_def path_elems_def)
  with assms(2) have False by (auto simp: ends_in_name_def valid_name_def)
  then show ?thesis ..
next
  case False
  then have "path_elems (render r out) = (if r then [[]] else []) @ out"
    using path_elems_render [OF assms(1)] by simp
  with False assms(2) have "valid_name (last out)" by (simp add: ends_in_name_def)
  moreover have "out = butlast out @ [last out]" using False by simp
  ultimately show ?thesis using that by blast
qed

lemma os_Remove_empty_dir:
  assumes "os_Stat fs (Clean p) = Inr (Directory [])" and "ends_in_name (Clean p)"
  shows "\<exists>fs'. os_Remove fs (Clean p) = (fs', None) \<and> os_Stat fs' (Clean p) = Inl ENOENT"
proof -
  have pne: "p \<noteq> []"
  proof
    assume "p = []"
    then have "Clean p = ''.''" by (simp add: Clean_def)
    with assms(2) show False by (simp add: ends_in_name_def path_elems_def valid_name_def)
  qed
  let ?r = "is_rooted p" and ?out = "clean_elems (is_rooted p) [] (split_slash p)"
  from Clean_form [OF pne] have n: "normal ?r ?out" and c: "Clean p = render ?r ?out"
    by simp_all
  from ends_in_name_form [OF n] assms(2) c obtain o' nm where
    o: "?out = o' @ [nm]" and vn: "valid_name nm" by metis
  have res: "resolve fs (Clean p) = Inr (walk_elems (start_dir fs ?r) o' @ [nm])"
    using resolve_render [OF n, of fs] c o walk_elems_snoc_name [OF vn] by simp
  let ?q = "walk_elems (start_dir fs ?r) o'"
  have "lookup (tree fs) (?q @ [nm]) = Inr (Directory [])"
    using assms(1) res by (simp add: os_Stat_def)
  from remove_node_empty_dir [OF this] obtain t' where
    t': "remove_node (tree fs) (?q @ [nm]) = Inr t'" "lookup t' (?q @ [nm]) = Inl ENOENT"
    by blast
  have chk: "last (path_elems (Clean p)) \<noteq> ''.''" "last (path_elems (Clean p)) \<noteq> ''..''"
    using assms(2) by (auto simp: ends_in_name_def valid_name_def)
  have "os_Remove fs (Clean p) = (fs\<lparr>tree := t'\<rparr>, None)"
    using res t'(1) chk by (simp add: os_Remove_def)
  moreover have "os_Stat (fs\<lparr>tree := t'\<rparr>) (Clean p) = Inl ENOENT"
    using res t'(2) by (simp add: os_Stat_def)
  ultimately show ?thesis by blast
qed

lemma os_Remove_not_name:
  assumes "p \<noteq> []" and "\<not> ends_in_name (Clean p)"
  shows "\<exists>e. os_Remove fs (Clean p) = (fs, Some e)"
proof -
  let ?r = "is_rooted p" and ?out = "clean_elems (is_rooted p) [] (split_slash p)"
  from Clean_form [OF assms(1)] have n: "normal ?r ?out" and c: "Clean p = render ?r ?out"
    by simp_all
  have res: "resolve fs (Clean p) = Inr (walk_elems (start_dir fs ?r) ?out)"
    using resolve_render [OF n, of fs] c by simp
  show ?thesis
  proof (cases "?out = []")
    case True
    show ?thesis
    proof (cases ?r)
      case True
      with \<open>?out = []\<close> c have cp: "Clean p = ''/''" by (simp add: render_def)
      have "resolve fs ''/'' = Inr []" by (simp add: resolve_def is_rooted_def)
      moreover have "path_elems ''/'' = [[]]" by (simp add: path_elems_def)
      ultimately show ?thesis unfolding cp by (simp add: os_Remove_def)
    next
      case False
      with \<open>?out = []\<close> c have cp: "Clean p = ''.''" by (simp add: render_def)
      have "path_elems ''.'' = [''.'']" by (simp add: path_elems_def)
      then show ?thesis unfolding cp
        by (simp add: os_Remove_def resolve_def split: sum.splits)
    qed
  next
    case False
    then have pe: "path_elems (Clean p) = (if ?r then [[]] else []) @ ?out"
      using path_elems_render [OF n] c by simp
    with False assms(2) have nv: "\<not> valid_name (last ?out)" by (simp add: ends_in_name_def)
    have "last ?out = ''..''"
      using normal_last_name [OF n False] nv by blast
    with pe False have "path_elems (Clean p) \<noteq> []" "last (path_elems (Clean p)) = ''..''"
      by simp_all
    then show ?thesis using res by (simp add: os_Remove_def)
  qed
qed



lemma lookup_RegFile_Cons: "lookup (RegFile d) q = Inr (RegFile x) \<longleftrightarrow> q = [] \<and> x = d"
  by (cases q) auto

lemma mkdir_all_files:
  "mkdir_all t p = Inr t' \<Longrightarrow>
     (lookup t' q = Inr (RegFile x)) = (lookup t q = Inr (RegFile x))"
proof (induction p arbitrary: t t' q)
  case Nil
  then show ?case by (cases t) auto
next
  case (Cons c p)
  show ?case
  proof (cases t)
    case (RegFile old)
    with Cons.prems show ?thesis by simp
  next
    case (Directory es)
    show ?thesis
    proof (cases q)
      case Nil
      with Cons.prems Directory show ?thesis by (auto split: option.splits sum.splits)
    next
      case (Cons c' q')
      note q = this
      show ?thesis
      proof (cases "map_of es c")
        case None
        with Cons.prems Directory
        have t': "t' = Directory (AList.update c (fresh_dirs p) es)" by simp
        show ?thesis
        proof (cases "c' = c")
          case True
          with t' q Directory None show ?thesis
            by (simp add: update_conv' fresh_dirs_no_file)
        next
          case False
          with t' q Directory show ?thesis by (simp add: update_conv')
        qed
      next
        case (Some ch)
        with Cons.prems Directory obtain ch' where
          ch': "mkdir_all ch p = Inr ch'" "t' = Directory (AList.update c ch' es)"
          by (auto split: sum.splits)
        show ?thesis
        proof (cases "c' = c")
          case True
          with ch'(2) q Directory Some Cons.IH [OF ch'(1), of q'] show ?thesis
            by (simp add: update_conv')
        next
          case False
          with ch'(2) q Directory show ?thesis by (simp add: update_conv')
        qed
      qed
    qed
  qed
qed

lemma write_file_files:
  "write_file t p d = Inr t' \<Longrightarrow>
     (lookup t' q = Inr (RegFile x)) = (if q = p then x = d else lookup t q = Inr (RegFile x))"
proof (induction p arbitrary: t t' q)
  case Nil
  then show ?case by (cases t) (auto simp: lookup_RegFile_Cons)
next
  case (Cons c p)
  show ?case
  proof (cases t)
    case (RegFile old)
    with Cons.prems show ?thesis by simp
  next
    case (Directory es)
    show ?thesis
    proof (cases q)
      case Nil
      with Cons.prems Directory show ?thesis
        by (auto split: option.splits sum.splits if_splits)
    next
      case (Cons c' q')
      note q = this
      show ?thesis
      proof (cases "map_of es c")
        case None
        with Cons.prems Directory
        have t': "p = []" "t' = Directory (AList.update c (RegFile d) es)"
          by (auto split: if_splits)
        show ?thesis
        proof (cases "c' = c")
          case True
          with t' q Directory None show ?thesis
            by (auto simp: update_conv' lookup_RegFile_Cons)
        next
          case False
          with t' q Directory show ?thesis by (simp add: update_conv')
        qed
      next
        case (Some ch)
        with Cons.prems Directory obtain ch' where
          ch': "write_file ch p d = Inr ch'" "t' = Directory (AList.update c ch' es)"
          by (auto split: sum.splits)
        show ?thesis
        proof (cases "c' = c")
          case True
          with ch'(2) q Directory Some Cons.IH [OF ch'(1), of q'] show ?thesis
            by (simp add: update_conv')
        next
          case False
          with ch'(2) q Directory show ?thesis by (simp add: update_conv')
        qed
      qed
    qed
  qed
qed

lemma wf_fresh_dirs: "\<forall>n\<in>set cs. valid_name n \<Longrightarrow> wf_node (fresh_dirs cs)"
  by (induction cs) auto

lemma wf_update:
  assumes "wf_node (Directory es)" and "valid_name c" and "wf_node ch"
  shows "wf_node (Directory (AList.update c ch es))"
proof -
  have "distinct (map fst (AList.update c ch es))"
    using assms(1) by (simp add: distinct_update)
  moreover have "\<forall>x\<in>set (AList.update c ch es). valid_name (fst x) \<and> wf_node (snd x)"
  proof
    fix x assume "x \<in> set (AList.update c ch es)"
    then have "x \<in> set es \<or> x = (c, ch)"
      by (induction es) (auto split: if_splits)
    with assms show "valid_name (fst x) \<and> wf_node (snd x)" by auto
  qed
  ultimately show ?thesis by simp
qed

lemma wf_child: "wf_node (Directory es) \<Longrightarrow> map_of es c = Some ch \<Longrightarrow> wf_node ch \<and> valid_name c"
  by (auto dest: map_of_SomeD)

lemma wf_mkdir_all:
  "wf_node t \<Longrightarrow> \<forall>n\<in>set p. valid_name n \<Longrightarrow> mkdir_all t p = Inr t' \<Longrightarrow> wf_node t'"
proof (induction p arbitrary: t t')
  case Nil
  then show ?case by (cases t) auto
next
  case (Cons c p)
  show ?case
  proof (cases t)
    case (RegFile old)
    with Cons.prems show ?thesis by simp
  next
    case (Directory es)
    have vc: "valid_name c" and vp: "\<forall>n\<in>set p. valid_name n" using Cons.prems(2) by simp_all
    have wd: "wf_node (Directory es)" using Cons.prems(1) Directory by simp
    show ?thesis
    proof (cases "map_of es c")
      case None
      with Cons.prems Directory
      have "t' = Directory (AList.update c (fresh_dirs p) es)" by simp
      then show ?thesis using wf_update [OF wd vc wf_fresh_dirs [OF vp]] by simp
    next
      case (Some ch)
      with Cons.prems Directory obtain ch' where
        ch': "mkdir_all ch p = Inr ch'" "t' = Directory (AList.update c ch' es)"
        by (auto split: sum.splits)
      have "wf_node ch" using wf_child [OF wd Some] by simp
      from Cons.IH [OF this vp ch'(1)] have "wf_node ch'" .
      then show ?thesis using wf_update [OF wd vc] ch'(2) by simp
    qed
  qed
qed

lemma wf_write_file:
  "wf_node t \<Longrightarrow> \<forall>n\<in>set p. valid_name n \<Longrightarrow> write_file t p d = Inr t' \<Longrightarrow> wf_node t'"
proof (induction p arbitrary: t t')
  case Nil
  then show ?case by (cases t) auto
next
  case (Cons c p)
  show ?case
  proof (cases t)
    case (RegFile old)
    with Cons.prems show ?thesis by simp
  next
    case (Directory es)
    have vc: "valid_name c" and vp: "\<forall>n\<in>set p. valid_name n" using Cons.prems(2) by simp_all
    have wd: "wf_node (Directory es)" using Cons.prems(1) Directory by simp
    show ?thesis
    proof (cases "map_of es c")
      case None
      with Cons.prems Directory
      have "t' = Directory (AList.update c (RegFile d) es)" by (auto split: if_splits)
      then show ?thesis using wf_update [OF wd vc, of "RegFile d"] by simp
    next
      case (Some ch)
      with Cons.prems Directory obtain ch' where
        ch': "write_file ch p d = Inr ch'" "t' = Directory (AList.update c ch' es)"
        by (auto split: sum.splits)
      have "wf_node ch" using wf_child [OF wd Some] by simp
      from Cons.IH [OF this vp ch'(1)] have "wf_node ch'" .
      then show ?thesis using wf_update [OF wd vc] ch'(2) by simp
    qed
  qed
qed

lemma wf_lookup_names:
  "wf_node t \<Longrightarrow> lookup t ns = Inr n \<Longrightarrow> (\<forall>x\<in>set ns. valid_name x) \<and> wf_node n"
proof (induction ns arbitrary: t)
  case Nil
  then show ?case by simp
next
  case (Cons c ns)
  show ?case
  proof (cases t)
    case (RegFile old)
    with Cons.prems show ?thesis by simp
  next
    case (Directory es)
    with Cons.prems obtain ch where ch: "map_of es c = Some ch" "lookup ch ns = Inr n"
      by (auto split: option.splits)
    from wf_child [OF _ ch(1)] Cons.prems(1) Directory have "wf_node ch" "valid_name c"
      by simp_all
    with Cons.IH [OF _ ch(2)] show ?thesis by simp
  qed
qed

lemma set_sorted_entries [simp]: "set (sorted_entries es) = set es"
  by (simp add: sorted_entries_def)

lemma walk_Directory_set:
  "set (walk path (Directory es))
     = insert (path, Directory es)
         (\<Union>x\<in>set es. set (walk (Join [path, fst x]) (snd x)))"
  by (auto simp: case_prod_beta)

lemma lookup_Directory_iff:
  assumes "distinct (map fst es)"
  shows "lookup (Directory es) ns = Inr n \<longleftrightarrow>
     (ns = [] \<and> n = Directory es)
     \<or> (\<exists>x ns'. x \<in> set es \<and> ns = fst x # ns' \<and> lookup (snd x) ns' = Inr n)"
proof (cases ns)
  case Nil
  then show ?thesis by auto
next
  case (Cons c ns')
  have "(case map_of es c of None \<Rightarrow> Inl ENOENT | Some ch \<Rightarrow> lookup ch ns') = Inr n
      \<longleftrightarrow> (\<exists>ch. (c, ch) \<in> set es \<and> lookup ch ns' = Inr n)"
    using assms by (cases "map_of es c") (auto dest: eq_key_imp_eq_value)
  then show ?thesis using Cons by force
qed

lemma walk_visits:
  "wf_node t \<Longrightarrow> normal r out \<Longrightarrow> path = render r out \<Longrightarrow>
     set (walk path t) = {(render r (out @ ns), n) | ns n. lookup t ns = Inr n}"
proof (induction path t arbitrary: out rule: walk.induct)
  case (1 path d)
  have "\<And>ns n. lookup (RegFile d) ns = Inr n \<longleftrightarrow> ns = [] \<and> n = RegFile d"
    by (case_tac ns) auto
  then show ?case using 1 by auto
next
  case (2 path es)
  have dist: "distinct (map fst es)" using "2.prems"(1) by simp
  have child: "set (walk (Join [path, fst x]) (snd x))
      = {(render r ((out @ [fst x]) @ ns), n) | ns n. lookup (snd x) ns = Inr n}"
    if "x \<in> set es" for x
  proof -
    have v: "valid_name (fst x)" and w: "wf_node (snd x)" using that "2.prems"(1) by auto
    have j: "Join [path, fst x] = render r (out @ [fst x])"
      using Join_child [OF "2.prems"(2) v] "2.prems"(3) by simp
    have "x \<in> set (sorted_entries es)" using that by simp
    from "2.IH" [OF this prod.collapse w normal_snoc_name [OF "2.prems"(2) v] j]
    show ?thesis by simp
  qed
  show ?case (is "?L = ?R")
  proof (rule set_eqI)
    fix v :: "string \<times> node"
    obtain p n where v: "v = (p, n)" by (cases v)
    have "v \<in> ?L \<longleftrightarrow> v = (path, Directory es)
        \<or> (\<exists>x\<in>set es. v \<in> set (walk (Join [path, fst x]) (snd x)))"
      by (subst walk_Directory_set) simp
    also have "\<dots> \<longleftrightarrow> v = (render r out, Directory es)
        \<or> (\<exists>x\<in>set es. \<exists>ns'. p = render r (out @ fst x # ns') \<and> lookup (snd x) ns' = Inr n)"
      using child v "2.prems"(3) by auto
    also have "\<dots> \<longleftrightarrow> (\<exists>ns. p = render r (out @ ns) \<and> lookup (Directory es) ns = Inr n)"
      (is "?A \<longleftrightarrow> ?B")
    proof
      assume ?A
      then show ?B
      proof
        assume "v = (render r out, Directory es)"
        with v have "p = render r (out @ []) \<and> lookup (Directory es) [] = Inr n" by simp
        then show ?B by blast
      next
        assume "\<exists>x\<in>set es. \<exists>ns'. p = render r (out @ fst x # ns') \<and> lookup (snd x) ns' = Inr n"
        then obtain x ns' where x: "x \<in> set es" "p = render r (out @ fst x # ns')"
          "lookup (snd x) ns' = Inr n" by blast
        then have "lookup (Directory es) (fst x # ns') = Inr n"
          using lookup_Directory_iff [OF dist, of "fst x # ns'" n] by blast
        with x(2) show ?B by blast
      qed
    next
      assume ?B
      then obtain ns where ns: "p = render r (out @ ns)" "lookup (Directory es) ns = Inr n"
        by blast
      from ns(2) lookup_Directory_iff [OF dist, of ns n]
      consider "ns = []" "n = Directory es"
        | x ns' where "x \<in> set es" "ns = fst x # ns'" "lookup (snd x) ns' = Inr n"
        by blast
      then show ?A
      proof cases
        case 1
        with ns v show ?thesis by simp
      next
        case 2
        with ns show ?thesis by blast
      qed
    qed
    finally show "v \<in> ?L \<longleftrightarrow> v \<in> ?R" using v by auto
  qed
qed

lemma list_visits_filter:
  "list_visits fs bp pre vs (filter (\<lambda>ob. pre = [] \<or> prefix pre (Key ob)) acc)
     = (case list_visits fs bp [] vs acc of
          Inl e \<Rightarrow> Inl e
        | Inr all \<Rightarrow> Inr (filter (\<lambda>ob. pre = [] \<or> prefix pre (Key ob)) all))"
proof (induction vs arbitrary: acc)
  case Nil
  then show ?case by simp
next
  case (Cons v vs)
  obtain path r where v: "v = (path, r)" by (cases v)
  show ?case
  proof (cases r)
    case (Inl e)
    with v show ?thesis by simp
  next
    case (Inr info)
    show ?thesis
    proof (cases "IsDir info")
      case True
      with v Inr Cons.IH show ?thesis by simp
    next
      case False
      show ?thesis
      proof (cases "Rel bp path")
        case (Inl e)
        with v Inr False show ?thesis by simp
      next
        case (Inr rel)
        let ?ob = "\<lparr>Key = ToSlash rel, Size = info_Size fs info, ETag = []\<rparr>"
        have u: "list_visits fs bp [] (v # vs) acc = list_visits fs bp [] vs (acc @ [?ob])"
          using v \<open>r = Inr info\<close> False Inr by (simp add: Let_def)
        show ?thesis
        proof (cases "pre = [] \<or> HasPrefix (ToSlash rel) pre")
          case True
          then have "list_visits fs bp pre (v # vs)
                (filter (\<lambda>ob. pre = [] \<or> prefix pre (Key ob)) acc)
              = list_visits fs bp pre vs
                (filter (\<lambda>ob. pre = [] \<or> prefix pre (Key ob)) (acc @ [?ob]))"
            using v \<open>r = Inr info\<close> False Inr by (auto simp: Let_def HasPrefix_def)
          with u Cons.IH [of "acc @ [?ob]"] show ?thesis by simp
        next
          case F: False
          then have "list_visits fs bp pre (v # vs)
                (filter (\<lambda>ob. pre = [] \<or> prefix pre (Key ob)) acc)
              = list_visits fs bp pre vs
                (filter (\<lambda>ob. pre = [] \<or> prefix pre (Key ob)) (acc @ [?ob]))"
            using v \<open>r = Inr info\<close> False Inr by (auto simp: Let_def HasPrefix_def)
          with u Cons.IH [of "acc @ [?ob]"] show ?thesis by simp
        qed
      qed
    qed
  qed
qed

lemma ListObjects_filter:
  "ListObjects s fs b pre
     = (case ListObjects s fs b [] of
          Inl e \<Rightarrow> Inl e
        | Inr all \<Rightarrow> Inr (filter (\<lambda>ob. pre = [] \<or> prefix pre (Key ob)) all))"
  using list_visits_filter [of fs "Join [root s, b]" pre "filepath_Walk fs (Join [root s, b])" "[]"]
  by (simp add: ListObjects_def split: sum.splits)

lemma list_visits_objects:
  assumes "\<forall>v\<in>set ws. \<not> IsDir (snd v) \<longrightarrow> (\<exists>k. Rel bp (fst v) = Inr k)"
  shows "\<exists>objs. list_visits fs bp [] (map (\<lambda>(p, n). (p, Inr n)) ws) acc = Inr (acc @ objs)
     \<and> set (map Key objs) = {k. \<exists>v\<in>set ws. \<not> IsDir (snd v) \<and> Rel bp (fst v) = Inr k}"
  using assms
proof (induction ws arbitrary: acc)
  case Nil
  then show ?case by simp
next
  case (Cons v ws)
  obtain p n where v: "v = (p, n)" by (cases v)
  have rest: "\<forall>v\<in>set ws. \<not> IsDir (snd v) \<longrightarrow> (\<exists>k. Rel bp (fst v) = Inr k)"
    using Cons.prems by simp
  show ?case
  proof (cases "IsDir n")
    case True
    from Cons.IH [OF rest, of acc] obtain objs where
      o: "list_visits fs bp [] (map (\<lambda>(p, n). (p, Inr n)) ws) acc = Inr (acc @ objs)"
      "set (map Key objs) = {k. \<exists>v\<in>set ws. \<not> IsDir (snd v) \<and> Rel bp (fst v) = Inr k}"
      by blast
    have "list_visits fs bp [] (map (\<lambda>(p, n). (p, Inr n)) (v # ws)) acc = Inr (acc @ objs)"
      using o(1) v True by simp
    moreover have "set (map Key objs)
        = {k. \<exists>v\<in>set (v # ws). \<not> IsDir (snd v) \<and> Rel bp (fst v) = Inr k}"
      using o(2) v True by auto
    ultimately show ?thesis by blast
  next
    case False
    with Cons.prems v obtain k where k: "Rel bp p = Inr k" by auto
    let ?ob = "\<lparr>Key = k, Size = info_Size fs n, ETag = []\<rparr>"
    from Cons.IH [OF rest, of "acc @ [?ob]"] obtain objs where
      o: "list_visits fs bp [] (map (\<lambda>(p, n). (p, Inr n)) ws) (acc @ [?ob])
            = Inr ((acc @ [?ob]) @ objs)"
      "set (map Key objs) = {k. \<exists>v\<in>set ws. \<not> IsDir (snd v) \<and> Rel bp (fst v) = Inr k}"
      by blast
    have "list_visits fs bp [] (map (\<lambda>(p, n). (p, Inr n)) (v # ws)) acc
        = Inr (acc @ (?ob # objs))"
      using o(1) v False k by (simp add: ToSlash_def)
    moreover have "set (map Key (?ob # objs))
        = {k. \<exists>v\<in>set (v # ws). \<not> IsDir (snd v) \<and> Rel bp (fst v) = Inr k}"
      using o(2) v False k by auto
    ultimately show ?thesis by blast
  qed
qed

lemma join_slash_Cons: "ys \<noteq> [] \<Longrightarrow> join_slash (x # ys) = x @ CHR ''/'' # join_slash ys"
  by (cases ys) auto

lemma join_slash_Cons_char: "join_slash ((c # x) # ys) = c # join_slash (x # ys)"
  by (cases ys) auto

lemma join_split_slash: "join_slash (split_slash k) = k"
proof (induction k)
  case Nil
  then show ?case by simp
next
  case (Cons c k)
  obtain x xs where sp: "split_slash k = x # xs" by (cases "split_slash k") auto
  show ?case
  proof (cases "c = CHR ''/''")
    case True
    then show ?thesis using Cons.IH by (simp add: join_slash_Cons)
  next
    case False
    then show ?thesis using Cons.IH sp by (simp add: join_slash_Cons_char)
  qed
qed

lemma valid_name_no_slash: "valid_name n \<Longrightarrow> CHR ''/'' \<notin> set n"
  by (simp add: valid_name_def)

lemma split_join_names:
  "ns \<noteq> [] \<Longrightarrow> \<forall>n\<in>set ns. valid_name n \<Longrightarrow> split_slash (join_slash ns) = ns"
  by (rule split_join_slash) (auto dest: valid_name_no_slash)

lemma canonical_key_iff:
  "canonical_key k \<longleftrightarrow> (\<exists>ns. ns \<noteq> [] \<and> (\<forall>n\<in>set ns. valid_name n) \<and> k = join_slash ns)"
proof
  assume "canonical_key k"
  then have "split_slash k \<noteq> [] \<and> (\<forall>n\<in>set (split_slash k). valid_name n)
      \<and> k = join_slash (split_slash k)"
    by (simp add: canonical_key_def join_split_slash)
  then show "\<exists>ns. ns \<noteq> [] \<and> (\<forall>n\<in>set ns. valid_name n) \<and> k = join_slash ns" by blast
next
  assume "\<exists>ns. ns \<noteq> [] \<and> (\<forall>n\<in>set ns. valid_name n) \<and> k = join_slash ns"
  then obtain ns where ns: "ns \<noteq> []" "\<forall>n\<in>set ns. valid_name n" "k = join_slash ns" by blast
  then have "split_slash k = ns"
    using split_join_names [of ns] by simp
  with ns(2) show "canonical_key k" by (simp add: canonical_key_def)
qed

lemma join_slash_inj:
  assumes "\<forall>n\<in>set a. valid_name n" and "\<forall>n\<in>set b. valid_name n"
    and "a \<noteq> []" and "b \<noteq> []" and "join_slash a = join_slash b"
  shows "a = b"
proof -
  have "a = split_slash (join_slash a)"
    by (rule split_join_names [OF assms(3,1), symmetric])
  also have "\<dots> = split_slash (join_slash b)"
    by (rule arg_cong [OF assms(5)])
  also have "\<dots> = b"
    by (rule split_join_names [OF assms(4,2)])
  finally show ?thesis .
qed

text \<open>What a bucket whose directory exists looks like to the path functions.\<close>

lemma bucket_paths:
  assumes "os_Stat fs (Join [root s, b]) = Inr t"
  obtains r out q where "normal r out" and "Join [root s, b] = render r out"
    and "resolve fs (Join [root s, b]) = Inr q" and "lookup (tree fs) q = Inr t"
    and "\<And>ns. \<forall>n\<in>set ns. valid_name n \<Longrightarrow>
           Join [root s, b, join_slash ns] = render r (out @ ns)
           \<and> resolve fs (Join [root s, b, join_slash ns]) = Inr (q @ ns)"
    and "wf_fs fs \<Longrightarrow> \<forall>n\<in>set q. valid_name n"
proof -
  have ne: "Join [root s, b] \<noteq> []" using assms by (rule os_Stat_nonempty)
  from Join_bucket_form [OF ne] obtain r out where
    n: "normal r out" and j: "Join [root s, b] = render r out"
    and j3: "\<And>ns. \<forall>n\<in>set ns. valid_name n \<Longrightarrow>
           Join [root s, b, join_slash ns] = render r (out @ ns)"
    by blast
  let ?q = "walk_elems (start_dir fs r) out"
  have rq: "resolve fs (Join [root s, b]) = Inr ?q"
    using resolve_render [OF n] j by simp
  have lq: "lookup (tree fs) ?q = Inr t" using assms rq by (simp add: os_Stat_def)
  have r3: "Join [root s, b, join_slash ns] = render r (out @ ns)
           \<and> resolve fs (Join [root s, b, join_slash ns]) = Inr (?q @ ns)"
    if "\<forall>n\<in>set ns. valid_name n" for ns
    using j3 [OF that] resolve_render_names [OF n that] by simp
  have vq: "\<forall>n\<in>set ?q. valid_name n" if "wf_fs fs"
  proof -
    have "wf_node (tree fs)" using that by (simp add: wf_fs_def)
    from wf_lookup_names [OF this lq] show ?thesis by simp
  qed
  show ?thesis using that [OF n j rq lq r3 vq] by blast
qed

lemma object_at_canonical:
  assumes "os_Stat fs (Join [root s, b]) = Inr t" and "\<forall>n\<in>set ns. valid_name n"
  shows "object_at s fs b (join_slash ns) \<longleftrightarrow> (\<exists>d. lookup t ns = Inr (RegFile d))"
proof -
  from bucket_paths [OF assms(1)] obtain q where
    lq: "lookup (tree fs) q = Inr t"
    and r3: "resolve fs (Join [root s, b, join_slash ns]) = Inr (q @ ns)"
    using assms(2) by metis
  have "os_Stat fs (Join [root s, b, join_slash ns]) = lookup t ns"
    using r3 lq by (simp add: os_Stat_def lookup_append)
  then show ?thesis
    by (auto simp: object_at_def split: sum.splits node.splits)
qed

lemma ListObjects_bucket:
  assumes wf: "wf_fs fs" and st: "os_Stat fs (Join [root s, b]) = Inr (Directory es)"
  shows "\<exists>objs. ListObjects s fs b [] = Inr objs
     \<and> set (map Key objs) = {k. canonical_key k \<and> object_at s fs b k}"
proof -
  let ?bp = "Join [root s, b]"
  define t where "t = Directory es"
  have st: "os_Stat fs ?bp = Inr t" using st by (simp add: t_def)
  from bucket_paths [OF st] obtain r out q where
    n: "normal r out" and j: "?bp = render r out" and lq: "lookup (tree fs) q = Inr t"
    by metis
  have wt: "wf_node t"
    using wf_lookup_names [OF _ lq] wf by (simp add: wf_fs_def)
  have ws: "set (walk ?bp t) = {(render r (out @ ns), n) | ns n. lookup t ns = Inr n}"
    by (rule walk_visits [OF wt n j])
  have fw: "filepath_Walk fs ?bp = map (\<lambda>(p, n). (p, Inr n)) (walk ?bp t)"
    using st by (simp add: filepath_Walk_def os_Lstat_def)
  have file_visit: "\<exists>ns d. ns \<noteq> [] \<and> (\<forall>x\<in>set ns. valid_name x) \<and> lookup t ns = Inr (RegFile d)
      \<and> v = (render r (out @ ns), RegFile d) \<and> Rel ?bp (fst v) = Inr (join_slash ns)"
    if "v \<in> set (walk ?bp t)" "\<not> IsDir (snd v)" for v
  proof -
    from that(1) have "v \<in> {(render r (out @ ns), n) | ns n. lookup t ns = Inr n}"
      unfolding ws .
    then obtain ns nd where v: "v = (render r (out @ ns), nd)"
      and l: "lookup t ns = Inr nd" by blast
    from that(2) v obtain d where d: "nd = RegFile d" by (cases nd) (auto simp: IsDir_def)
    have ne: "ns \<noteq> []" using l d by (cases ns) (auto simp: t_def)
    have vn: "\<forall>x\<in>set ns. valid_name x" using wf_lookup_names [OF wt l] by simp
    have "Rel ?bp (fst v) = Inr (join_slash ns)"
      using Rel_descend [OF n vn ne] v j by simp
    with v l d ne vn show ?thesis by blast
  qed
  have good: "\<forall>v\<in>set (walk ?bp t). \<not> IsDir (snd v) \<longrightarrow> (\<exists>k. Rel ?bp (fst v) = Inr k)"
    using file_visit by blast
  from list_visits_objects [OF good, of fs "[]"] obtain objs where
    lv: "list_visits fs ?bp [] (map (\<lambda>(p, n). (p, Inr n)) (walk ?bp t)) [] = Inr objs"
    and ks: "set (map Key objs)
        = {k. \<exists>v\<in>set (walk ?bp t). \<not> IsDir (snd v) \<and> Rel ?bp (fst v) = Inr k}"
    by auto
  have lo: "ListObjects s fs b [] = Inr objs"
    using lv fw by (simp add: ListObjects_def)
  have "{k. \<exists>v\<in>set (walk ?bp t). \<not> IsDir (snd v) \<and> Rel ?bp (fst v) = Inr k}
      = {k. canonical_key k \<and> object_at s fs b k}" (is "?A = ?B")
  proof (rule set_eqI)
    fix k
    show "k \<in> ?A \<longleftrightarrow> k \<in> ?B"
    proof
      assume "k \<in> ?A"
      then obtain v where v: "v \<in> set (walk ?bp t)" "\<not> IsDir (snd v)" "Rel ?bp (fst v) = Inr k"
        by blast
      from file_visit [OF v(1,2)] v(3) obtain ns d where
        ns: "ns \<noteq> []" "\<forall>x\<in>set ns. valid_name x" "lookup t ns = Inr (RegFile d)"
        "k = join_slash ns" by auto
      have "canonical_key k" using canonical_key_iff ns by blast
      moreover have "object_at s fs b k"
        using object_at_canonical [OF st ns(2)] ns(3,4) by simp
      ultimately show "k \<in> ?B" by simp
    next
      assume "k \<in> ?B"
      then have ck: "canonical_key k" and ob: "object_at s fs b k" by simp_all
      from ck canonical_key_iff obtain ns where
        ns: "ns \<noteq> []" "\<forall>n\<in>set ns. valid_name n" "k = join_slash ns" by blast
      from ob object_at_canonical [OF st ns(2)] ns(3) obtain d where
        d: "lookup t ns = Inr (RegFile d)" by auto
      let ?v = "(render r (out @ ns), RegFile d)"
      have "?v \<in> set (walk ?bp t)" unfolding ws using d by blast
      moreover have "\<not> IsDir (snd ?v)" by (simp add: IsDir_def)
      moreover have "Rel ?bp (fst ?v) = Inr k"
        using Rel_descend [OF n ns(2) ns(1)] j ns(3) by simp
      ultimately show "k \<in> ?A" by blast
    qed
  qed
  with ks lo show ?thesis by simp
qed

lemma resolve_same_cwd: "cwd fs' = cwd fs \<Longrightarrow> resolve fs' name = resolve fs name"
  by (simp add: resolve_def)

lemma lookup_parent_dir:
  assumes "lookup t (q @ ns) = Inr n" and "ns \<noteq> []"
  shows "\<exists>es. lookup t q = Inr (Directory es)"
proof (cases "lookup t q")
  case (Inl e)
  with assms(1) show ?thesis by (simp add: lookup_append)
next
  case (Inr m)
  show ?thesis
  proof (cases m)
    case (RegFile d)
    with Inr assms show ?thesis by (cases ns) (simp_all add: lookup_append)
  next
    case (Directory es)
    with Inr show ?thesis by simp
  qed
qed

lemma PutObject_tree:
  assumes "PutObject s fs b k P sz = (fs', None)"
  obtains pd f t1 t3 where "resolve fs (Dir (Join [root s, b, k])) = Inr pd"
    and "resolve fs (Join [root s, b, k]) = Inr f"
    and "mkdir_all (tree fs) pd = Inr t1" and "write_file t1 f (delivered P) = Inr t3"
    and "fs' = fs\<lparr>tree := t3\<rparr>"
proof -
  let ?op = "Join [root s, b, k]"
  from assms obtain fs1 where m: "os_MkdirAll fs (Dir ?op) = (fs1, None)"
    by (auto simp: PutObject_def Let_def split: prod.splits option.splits sum.splits)
  with assms obtain fs2 f where c: "os_Create fs1 ?op = (fs2, Inr f)"
    by (auto simp: PutObject_def Let_def split: prod.splits option.splits sum.splits)
  with assms m have w: "io_Copy fs2 f P = (fs', None)"
    by (auto simp: PutObject_def Let_def split: prod.splits option.splits sum.splits)
  from m obtain pd t1 where pd: "resolve fs (Dir ?op) = Inr pd"
    and t1: "mkdir_all (tree fs) pd = Inr t1" and fs1: "fs1 = fs\<lparr>tree := t1\<rparr>"
    by (auto simp: os_MkdirAll_def split: sum.splits)
  from c obtain t2 where r: "resolve fs1 ?op = Inr f"
    and t2: "write_file (tree fs1) f [] = Inr t2" and fs2: "fs2 = fs1\<lparr>tree := t2\<rparr>"
    by (auto simp: os_Create_def split: sum.splits)
  from w obtain t3 where t3: "write_file (tree fs2) f (delivered P) = Inr t3" and fs': "fs' = fs2\<lparr>tree := t3\<rparr>"
    by (auto simp: io_Copy_def split: sum.splits)
  have "write_file t1 f (delivered P) = Inr t3"
    using write_file_again [of t1 f "[]" t2 "delivered P"] t2 t3 fs1 fs2 by simp
  moreover have "resolve fs ?op = Inr f" using r fs1 by simp
  moreover have "fs' = fs\<lparr>tree := t3\<rparr>" using fs' fs2 fs1 by simp
  ultimately show ?thesis using that pd t1 by blast
qed

lemma PutObject_canonical:
  assumes wf: "wf_fs fs" and st: "os_Stat fs (Join [root s, b]) = Inr (Directory es)"
    and ck: "canonical_key k" and put: "PutObject s fs b k P sz = (fs', None)"
  shows "wf_fs fs'"
    and "\<exists>es'. os_Stat fs' (Join [root s, b]) = Inr (Directory es')"
    and "canonical_key k' \<Longrightarrow> object_at s fs' b k' = (k' = k \<or> object_at s fs b k')"
proof -
  from ck canonical_key_iff obtain ns where
    ns: "ns \<noteq> []" "\<forall>n\<in>set ns. valid_name n" "k = join_slash ns" by blast
  from bucket_paths [OF st] obtain r out q where
    n: "normal r out" and rq: "resolve fs (Join [root s, b]) = Inr q"
    and lq: "lookup (tree fs) q = Inr (Directory es)"
    and j3: "\<And>ns. \<forall>n\<in>set ns. valid_name n \<Longrightarrow>
           Join [root s, b, join_slash ns] = render r (out @ ns)
           \<and> resolve fs (Join [root s, b, join_slash ns]) = Inr (q @ ns)"
    and vq: "\<forall>n\<in>set q. valid_name n"
    using wf by metis
  have j3a: "Join [root s, b, join_slash xs] = render r (out @ xs)"
    and j3b: "resolve fs (Join [root s, b, join_slash xs]) = Inr (q @ xs)"
    if "\<forall>n\<in>set xs. valid_name n" for xs
    using j3 [OF that] by blast+
  have bl: "\<forall>n\<in>set (butlast ns). valid_name n" using ns(2) by (auto dest: in_set_butlastD)
  have vl: "valid_name (last ns)" using ns(1,2) by simp
  have op: "Join [root s, b, k] = render r ((out @ butlast ns) @ [last ns])"
    using j3a [OF ns(2)] ns(1,3) by simp
  have "Dir (Join [root s, b, k]) = render r (out @ butlast ns)"
    unfolding op by (rule Dir_render_snoc [OF normal_append_names [OF n bl] vl])
  also have "\<dots> = Join [root s, b, join_slash (butlast ns)]" using j3a [OF bl] by simp
  finally have rd: "resolve fs (Dir (Join [root s, b, k])) = Inr (q @ butlast ns)"
    using j3b [OF bl] by simp
  have ro: "resolve fs (Join [root s, b, k]) = Inr (q @ ns)"
    using j3b [OF ns(2)] ns(3) by simp
  from PutObject_tree [OF put] obtain pd f t1 t3 where
    "resolve fs (Dir (Join [root s, b, k])) = Inr pd" "resolve fs (Join [root s, b, k]) = Inr f"
    "mkdir_all (tree fs) pd = Inr t1" "write_file t1 f (delivered P) = Inr t3" "fs' = fs\<lparr>tree := t3\<rparr>"
    by blast
  with rd ro have t1: "mkdir_all (tree fs) (q @ butlast ns) = Inr t1"
    and t3: "write_file t1 (q @ ns) (delivered P) = Inr t3" and fs': "fs' = fs\<lparr>tree := t3\<rparr>"
    by simp_all
  have cw: "cwd fs' = cwd fs" using fs' by simp
  have wt: "wf_node (tree fs)" using wf by (simp add: wf_fs_def)
  have "wf_node t1"
    by (rule wf_mkdir_all [OF wt _ t1]) (use vq bl in auto)
  then have "wf_node t3"
    by (rule wf_write_file [OF _ _ t3]) (use vq ns(2) in auto)
  then show "wf_fs fs'" using wf fs' by (simp add: wf_fs_def)
  have files: "(lookup t3 x = Inr (RegFile d))
      = (if x = q @ ns then d = delivered P else lookup (tree fs) x = Inr (RegFile d))" for x d
    using write_file_files [OF t3, of x d] mkdir_all_files [OF t1, of x d] by simp
  have "lookup t3 (q @ ns) = Inr (RegFile (delivered P))" using files by simp
  from lookup_parent_dir [OF this ns(1)] obtain es' where
    es': "lookup t3 q = Inr (Directory es')" by blast
  have "resolve fs' (Join [root s, b]) = Inr q"
    using resolve_same_cwd [OF cw] rq by simp
  with es' fs' have st': "os_Stat fs' (Join [root s, b]) = Inr (Directory es')"
    by (simp add: os_Stat_def)
  then show "\<exists>es'. os_Stat fs' (Join [root s, b]) = Inr (Directory es')" by blast
  show "object_at s fs' b k' = (k' = k \<or> object_at s fs b k')" if "canonical_key k'"
  proof -
    from that canonical_key_iff obtain ns' where
      ns': "ns' \<noteq> []" "\<forall>n\<in>set ns'. valid_name n" "k' = join_slash ns'" by blast
    have "object_at s fs' b k' \<longleftrightarrow> (\<exists>d. lookup (Directory es') ns' = Inr (RegFile d))"
      using object_at_canonical [OF st' ns'(2)] ns'(3) by simp
    also have "\<dots> \<longleftrightarrow> (\<exists>d. lookup t3 (q @ ns') = Inr (RegFile d))"
      using es' by (simp add: lookup_append)
    also have "\<dots> \<longleftrightarrow> ns' = ns \<or> (\<exists>d. lookup (tree fs) (q @ ns') = Inr (RegFile d))"
      using files [of "q @ ns'"] by auto
    also have "\<dots> \<longleftrightarrow> ns' = ns \<or> (\<exists>d. lookup (Directory es) ns' = Inr (RegFile d))"
      using lq by (simp add: lookup_append)
    also have "\<dots> \<longleftrightarrow> ns' = ns \<or> object_at s fs b k'"
      using object_at_canonical [OF st ns'(2)] ns'(3) by simp
    also have "ns' = ns \<longleftrightarrow> k' = k"
      using join_slash_inj [OF ns'(2) ns(2) ns'(1) ns(1)] ns(3) ns'(3) by auto
    finally show ?thesis .
  qed
qed

lemma put_all_objects:
  assumes "wf_fs fs" and "os_Stat fs (Join [root s, b]) = Inr (Directory es)"
    and "\<forall>k\<in>set (map fst kps). canonical_key k" and "put_all s fs b kps = Some fs'"
  shows "wf_fs fs' \<and> (\<exists>es'. os_Stat fs' (Join [root s, b]) = Inr (Directory es'))
     \<and> (\<forall>k'. canonical_key k' \<longrightarrow>
          object_at s fs' b k' = (k' \<in> set (map fst kps) \<or> object_at s fs b k'))"
  using assms
proof (induction kps arbitrary: fs es)
  case Nil
  then show ?case by auto
next
  case (Cons kp kps)
  obtain k P where kp: "kp = (k, P)" by (cases kp)
  from Cons.prems(4) kp obtain fs1 where
    p1: "PutObject s fs b k (bytes_reader P) (int (length P)) = (fs1, None)"
    and rest: "put_all s fs1 b kps = Some fs'"
    by (auto split: prod.splits option.splits)
  have ck: "canonical_key k" and cks: "\<forall>k\<in>set (map fst kps). canonical_key k"
    using Cons.prems(3) kp by simp_all
  note step = PutObject_canonical [OF Cons.prems(1,2) ck p1]
  from step(2) obtain es1 where es1: "os_Stat fs1 (Join [root s, b]) = Inr (Directory es1)"
    by blast
  from Cons.IH [OF step(1) es1 cks rest]
  have w: "wf_fs fs'" and d: "\<exists>es'. os_Stat fs' (Join [root s, b]) = Inr (Directory es')"
    and o: "\<And>k'. canonical_key k' \<Longrightarrow>
          object_at s fs' b k' = (k' \<in> set (map fst kps) \<or> object_at s fs1 b k')"
    by blast+
  have "object_at s fs' b k' = (k' \<in> set (map fst (kp # kps)) \<or> object_at s fs b k')"
    if "canonical_key k'" for k'
    using o [OF that] step(3) [OF that] kp by auto
  with w d show ?case by blast
qed

lemma walk_elems_valid:
  "\<forall>n\<in>set cur. valid_name n \<Longrightarrow> \<forall>e\<in>set xs. CHR ''/'' \<notin> set e \<Longrightarrow>
     \<forall>n\<in>set (walk_elems cur xs). valid_name n"
proof (induction xs arbitrary: cur)
  case Nil
  then show ?case by simp
next
  case (Cons e xs)
  have rest: "\<forall>e\<in>set xs. CHR ''/'' \<notin> set e" using Cons.prems(2) by simp
  show ?case
  proof (cases "e = [] \<or> e = ''.''")
    case True
    then show ?thesis using Cons.IH [OF Cons.prems(1) rest] by auto
  next
    case False
    note ne = this
    show ?thesis
    proof (cases "e = ''..''")
      case True
      have "\<forall>n\<in>set (butlast cur). valid_name n"
        using Cons.prems(1) by (auto dest: in_set_butlastD)
      from Cons.IH [OF this rest] True show ?thesis by simp
    next
      case False
      then have "valid_name e" using ne Cons.prems(2) by (simp add: valid_name_def)
      then have "\<forall>n\<in>set (cur @ [e]). valid_name n" using Cons.prems(1) by simp
      from Cons.IH [OF this rest] False ne show ?thesis by simp
    qed
  qed
qed

lemma filter_unique_key:
  "distinct (map fst es) \<Longrightarrow> map_of es b = Some n \<Longrightarrow> filter (\<lambda>e. fst e = b) es = [(b, n)]"
proof (induction es)
  case Nil
  then show ?case by simp
next
  case (Cons x es)
  show ?case
  proof (cases "fst x = b")
    case True
    with Cons.prems have "x = (b, n)" by (cases x) auto
    moreover have "filter (\<lambda>e. fst e = b) es = []"
    proof -
      have "b \<notin> fst ` set es" using Cons.prems(1) True by auto
      then have "\<forall>e\<in>set es. fst e \<noteq> b" by (auto simp: image_iff)
      then show ?thesis by (simp add: filter_empty_conv)
    qed
    ultimately show ?thesis by simp
  next
    case False
    with Cons show ?thesis by (cases x) auto
  qed
qed

lemma length_filter_sorted_entries:
  "length (filter P (sorted_entries es)) = length (filter P es)"
  by (simp add: sorted_entries_def filter_sort)

lemma ListBuckets_after_create:
  assumes wf: "wf_fs fs" and vb: "valid_name b" and rt: "root s \<noteq> []"
    and cr: "CreateBucket s fs b = (fs', None)"
  shows "\<exists>bs. ListBuckets s fs' = Inr bs \<and> length (filter (\<lambda>x. Name x = b) bs) = 1"
proof -
  let ?r = "is_rooted (root s)" and ?out = "clean_elems (is_rooted (root s)) [] (split_slash (root s))"
  let ?q = "walk_elems (start_dir fs ?r) ?out"
  from Clean_form [OF rt] have n: "normal ?r ?out" and c: "Clean (root s) = render ?r ?out"
    by simp_all
  have vb1: "\<forall>n\<in>set [b]. valid_name n" using vb by simp
  have "b \<noteq> []" using vb by (simp add: valid_name_def)
  then have "Join [root s, b] = Clean (root s @ CHR ''/'' # join_slash [b])"
    using rt by (simp add: Join_def)
  also have "\<dots> = render ?r (?out @ [b])" by (rule Clean_slash_names [OF rt vb1])
  finally have jb: "Join [root s, b] = render ?r (?out @ [b])" .
  have rb: "resolve fs (Join [root s, b]) = Inr (?q @ [b])"
    unfolding jb by (rule resolve_render_names [OF n vb1])
  have rr: "resolve fs (root s) = Inr ?q"
    using resolve_Clean [OF rt, of fs] resolve_render [OF n, of fs] c by simp
  from cr have m: "os_MkdirAll fs (Join [root s, b]) = (fs', None)"
    by (auto simp: CreateBucket_def Let_def split: prod.splits option.splits)
  with rb obtain t' where t': "mkdir_all (tree fs) (?q @ [b]) = Inr t'" and fs': "fs' = fs\<lparr>tree := t'\<rparr>"
    by (auto simp: os_MkdirAll_def split: sum.splits)
  from mkdir_all_makes_dir [OF t'] obtain d where d: "lookup t' (?q @ [b]) = Inr (Directory d)"
    by blast
  from lookup_parent_dir [OF d] obtain es0 where es0: "lookup t' ?q = Inr (Directory es0)"
    by blast
  have mb: "map_of es0 b = Some (Directory d)"
    using d es0 by (auto simp: lookup_append split: option.splits)
  have vq: "\<forall>n\<in>set ?q. valid_name n"
    by (rule walk_elems_valid) (use wf n normal_no_slash in \<open>auto simp: wf_fs_def start_dir_def\<close>)
  have "wf_node t'"
    by (rule wf_mkdir_all [OF _ _ t']) (use wf vq vb in \<open>auto simp: wf_fs_def\<close>)
  from wf_lookup_names [OF this es0] have dist: "distinct (map fst es0)" by simp
  have rd: "os_ReadDir fs' (root s) = Inr (sorted_entries es0)"
    using rr es0 fs' by (simp add: os_ReadDir_def os_Stat_def)
  let ?bs = "map (\<lambda>entry. \<lparr>Name = fst entry\<rparr>)
      (filter (\<lambda>entry. IsDir (snd entry)) (sorted_entries es0))"
  have lb: "ListBuckets s fs' = Inr ?bs" using rd by (simp add: ListBuckets_def)
  have "length (filter (\<lambda>x. Name x = b) ?bs)
      = length (filter (\<lambda>e. fst e = b \<and> IsDir (snd e)) (sorted_entries es0))"
    by (simp add: filter_map comp_def conj_commute)
  also have "\<dots> = length (filter (\<lambda>e. fst e = b \<and> IsDir (snd e)) es0)"
    by (rule length_filter_sorted_entries)
  also have "\<dots> = length (filter (\<lambda>e. IsDir (snd e)) (filter (\<lambda>e. fst e = b) es0))"
    by (simp add: conj_commute)
  also have "\<dots> = 1"
    unfolding filter_unique_key [OF dist mb] by (simp add: IsDir_def)
  finally show ?thesis using lb by blast
qed

lemma CreateBucket_twice:
  "CreateBucket s (fst (CreateBucket s fs b)) b = CreateBucket s fs b"
proof (cases "CreateBucket s fs b")
  case (Pair fs' e)
  show ?thesis
  proof (cases e)
    case None
    with Pair have m: "os_MkdirAll fs (Join [root s, b]) = (fs', None)"
      by (auto simp: CreateBucket_def Let_def split: prod.splits option.splits)
    from os_MkdirAll_idem [OF m] Pair None show ?thesis by (simp add: CreateBucket_def)
  next
    case (Some err)
    with Pair obtain e' where m: "os_MkdirAll fs (Join [root s, b]) = (fs', Some e')"
      by (auto simp: CreateBucket_def Let_def split: prod.splits option.splits)
    from os_MkdirAll_error_state [OF m] Pair show ?thesis by simp
  qed
qed

section \<open>Statuses of the dispatcher\<close>

lemma SplitN2_length: "length (SplitN2 p) \<noteq> 0"
  by (simp add: SplitN2_def)

lemma ServeHTTP_routes:
  "ServeHTTP s fs r =
     (if request_path r = [] \<and> Method r = ''GET'' then
        (case ListBuckets s fs of
           Inl err \<Rightarrow> (fs, http_Error (ErrorText err) StatusInternalServerError)
         | Inr buckets \<Rightarrow> (fs, write_xml (ListAllMyBucketsResult buckets)))
      else if Method r = ''PUT'' then
        (if request_key r = [] then
           (case CreateBucket s fs (request_bucket r) of
              (fs', Some err) \<Rightarrow> (fs', http_Error (ErrorText err) StatusInternalServerError)
            | (fs', None) \<Rightarrow> (fs', WriteHeader StatusOK))
         else
           (case PutObject s fs (request_bucket r) (request_key r) (Body r) (ContentLength r) of
              (fs', Some err) \<Rightarrow> (fs', http_Error (ErrorText err) StatusInternalServerError)
            | (fs', None) \<Rightarrow> (fs', WriteHeader StatusOK)))
      else if Method r = ''GET'' then
        (if request_key r = [] then
           (case ListObjects s fs (request_bucket r) (Query_prefix r) of
              Inl err \<Rightarrow> (fs, http_Error (ErrorText err) StatusInternalServerError)
            | Inr objects \<Rightarrow> (fs, write_xml (ListBucketResult (request_bucket r) objects)))
         else
           (case GetObject s fs (request_bucket r) (request_key r) of
              Inl err \<Rightarrow> (fs, http_Error (ErrorText err) StatusNotFound)
            | Inr (rc, sz) \<Rightarrow> (fs, write_object rc sz)))
      else if Method r = ''DELETE'' then
        (if request_key r = [] then
           (case DeleteBucket s fs (request_bucket r) of
              (fs', Some err) \<Rightarrow> (fs', http_Error (ErrorText err) StatusInternalServerError)
            | (fs', None) \<Rightarrow> (fs', WriteHeader StatusNoContent))
         else
           (case DeleteObject s fs (request_bucket r) (request_key r) of
              (fs', Some err) \<Rightarrow> (fs', http_Error (ErrorText err) StatusInternalServerError)
            | (fs', None) \<Rightarrow> (fs', WriteHeader StatusNoContent)))
      else (fs, http_Error (Literal ''Method not allowed'') StatusMethodNotAllowed))"
  unfolding ServeHTTP_def request_path_def request_bucket_def request_key_def Let_def
  using SplitN2_length [of "TrimPrefix (URL_Path r) ''/''"] by simp

lemma clean_elems_name_dotdot:
  "valid_name b \<Longrightarrow> clean_elems r out (b # ''..'' # rest) = clean_elems r out rest"
  by (simp add: valid_name_def)

lemma Join_escape:
  assumes "rt \<noteq> []" and "valid_name b"
  shows "Join [rt, b, ''../'' @ k] = Join [rt, k]"
proof -
  have bne: "b \<noteq> []" using assms(2) by (simp add: valid_name_def)
  have sb: "split_slash b = [b]"
    using assms(2) by (simp add: split_slash_no_slash valid_name_def)
  have "Join [rt, b, ''../'' @ k] = Clean (rt @ CHR ''/'' # b @ CHR ''/'' # ''..'' @ CHR ''/'' # k)"
    using assms(1) by (simp add: Join_def)
  also have "\<dots> = render (is_rooted rt)
      (clean_elems (is_rooted rt) [] (split_slash rt @ b # ''..'' # split_slash k))"
  proof -
    have "split_slash (rt @ CHR ''/'' # b @ CHR ''/'' # ''..'' @ CHR ''/'' # k)
        = split_slash rt @ b # ''..'' # split_slash k"
      using split_slash_append [of rt "b @ CHR ''/'' # ''..'' @ CHR ''/'' # k"]
        split_slash_append [of b "''..'' @ CHR ''/'' # k"]
        split_slash_append [of "''..''" k] sb
      by simp
    then show ?thesis using assms(1) by (simp add: Clean_def is_rooted_def)
  qed
  also have "\<dots> = render (is_rooted rt)
      (clean_elems (is_rooted rt) [] (split_slash rt @ split_slash k))"
  proof -
    have "clean_elems (is_rooted rt) [] (split_slash rt @ b # ''..'' # split_slash k)
        = clean_elems (is_rooted rt) (clean_elems (is_rooted rt) [] (split_slash rt))
            (b # ''..'' # split_slash k)"
      by (rule clean_elems_append)
    also have "\<dots> = clean_elems (is_rooted rt) (clean_elems (is_rooted rt) [] (split_slash rt))
            (split_slash k)"
      by (rule clean_elems_name_dotdot [OF assms(2)])
    also have "\<dots> = clean_elems (is_rooted rt) [] (split_slash rt @ split_slash k)"
      by (rule clean_elems_append [symmetric])
    finally show ?thesis by simp
  qed
  also have "\<dots> = Clean (rt @ CHR ''/'' # k)"
    using assms(1) by (simp add: Clean_def is_rooted_def split_slash_append)
  also have "\<dots> = Join [rt, k]"
  proof (cases "k = []")
    case True
    then show ?thesis using assms(1) by (simp add: Join_def)
  next
    case False
    then show ?thesis using assms(1) by (simp add: Join_def)
  qed
  finally show ?thesis .
qed

lemma Join_three_two: "c \<noteq> [] \<Longrightarrow> Join [rt, c, x] = Join [rt, c @ CHR ''/'' # x]"
  by (cases "rt = []") (simp_all add: Join_def)

lemma request_split:
  assumes "CHR ''/'' \<notin> set b"
  shows "URL_Path r = ''/'' @ b @ ''/'' @ k \<Longrightarrow> request_bucket r = b \<and> request_key r = k"
    and "URL_Path r = ''/'' @ b \<Longrightarrow> request_bucket r = b \<and> request_key r = []"
proof -
  have tw: "takeWhile (\<lambda>c. c \<noteq> CHR ''/'') (b @ CHR ''/'' # k) = b"
    using assms by (simp add: takeWhile_append)
  have dw: "dropWhile (\<lambda>c. c \<noteq> CHR ''/'') (b @ CHR ''/'' # k) = CHR ''/'' # k"
    using assms by (simp add: dropWhile_append)
  show "request_bucket r = b \<and> request_key r = k" if "URL_Path r = ''/'' @ b @ ''/'' @ k"
    using that tw dw
    by (simp add: request_bucket_def request_key_def request_path_def TrimPrefix_def SplitN2_def)
  show "request_bucket r = b \<and> request_key r = []" if "URL_Path r = ''/'' @ b"
    using that assms
    by (simp add: request_bucket_def request_key_def request_path_def TrimPrefix_def SplitN2_def)
qed


section \<open>Bucket lifecycle\<close>

text \<open>
  C6.  \<open>CreateBucket\<close> is idempotent: a second call returns what the first call
  returned, the file system included.  When the directory of the bucket exists, the
  call succeeds and leaves the file system as it is; after any successful call the
  directory exists, and for a bucket with a proper name the list of buckets names it
  exactly once.
\<close>

theorem CreateBucket_idempotent:
  "CreateBucket s (fst (CreateBucket s fs b)) b = CreateBucket s fs b
   \<and> (os_Stat fs (Join [root s, b]) = Inr (Directory es) \<longrightarrow> CreateBucket s fs b = (fs, None))
   \<and> (CreateBucket s fs b = (fs', None) \<longrightarrow>
        (\<exists>es'. os_Stat fs' (Join [root s, b]) = Inr (Directory es'))
        \<and> CreateBucket s fs' b = (fs', None))
   \<and> (wf_fs fs \<and> valid_name b \<and> root s \<noteq> [] \<and> CreateBucket s fs b = (fs', None) \<longrightarrow>
        (\<exists>bs. ListBuckets s fs' = Inr bs \<and> length (filter (\<lambda>x. Name x = b) bs) = 1))"
proof (intro conjI impI)
  show "CreateBucket s (fst (CreateBucket s fs b)) b = CreateBucket s fs b"
    by (rule CreateBucket_twice)
next
  assume "os_Stat fs (Join [root s, b]) = Inr (Directory es)"
  from os_MkdirAll_existing [OF this] show "CreateBucket s fs b = (fs, None)"
    by (simp add: CreateBucket_def)
next
  assume c: "CreateBucket s fs b = (fs', None)"
  then have m: "os_MkdirAll fs (Join [root s, b]) = (fs', None)"
    by (auto simp: CreateBucket_def Let_def split: prod.splits option.splits)
  from os_MkdirAll_makes_dir [OF m]
  show "\<exists>es'. os_Stat fs' (Join [root s, b]) = Inr (Directory es')" .
next
  assume c: "CreateBucket s fs b = (fs', None)"
  then have m: "os_MkdirAll fs (Join [root s, b]) = (fs', None)"
    by (auto simp: CreateBucket_def Let_def split: prod.splits option.splits)
  from os_MkdirAll_idem [OF m] show "CreateBucket s fs' b = (fs', None)"
    by (simp add: CreateBucket_def)
next
  assume "wf_fs fs \<and> valid_name b \<and> root s \<noteq> [] \<and> CreateBucket s fs b = (fs', None)"
  then show "\<exists>bs. ListBuckets s fs' = Inr bs \<and> length (filter (\<lambda>x. Name x = b) bs) = 1"
    using ListBuckets_after_create [of fs b s fs'] by blast
qed

theorem CreateBucket_idempotent_witness:
  "os_Stat fs_nested (Join [root srv, ''c'']) = Inr (Directory [])
   \<and> CreateBucket srv fs_nested ''c'' = (fs_nested, None)
   \<and> CreateBucket srv fs_empty ''b'' = (fs_one_bucket, None)
   \<and> CreateBucket srv fs_one_bucket ''b'' = (fs_one_bucket, None)
   \<and> wf_fs fs_empty \<and> valid_name ''b''
   \<and> ListBuckets srv fs_one_bucket = Inr [\<lparr>Name = ''b''\<rparr>]
   \<and> (\<exists>bs. ListBuckets srv fs_one_bucket = Inr bs
         \<and> length (filter (\<lambda>x. Name x = ''b'') bs) = 1)"
proof -
  have h1: "os_Stat fs_nested (Join [root srv, ''c'']) = Inr (Directory [])"
    by code_simp
  have h2: "CreateBucket srv fs_empty ''b'' = (fs_one_bucket, None)"
    by code_simp
  have h3: "wf_fs fs_empty \<and> valid_name ''b'' \<and> root srv \<noteq> []
      \<and> CreateBucket srv fs_empty ''b'' = (fs_one_bucket, None)"
    by code_simp
  have e: "ListBuckets srv fs_one_bucket = Inr [\<lparr>Name = ''b''\<rparr>]"
    by code_simp
  note T1 = CreateBucket_idempotent [of srv fs_nested "''c''" "[]"]
  note T2 = CreateBucket_idempotent [of srv fs_empty "''b''" _ fs_one_bucket]
  have c1: "CreateBucket srv fs_nested ''c'' = (fs_nested, None)"
    by (rule T1 [THEN conjunct2, THEN conjunct1, THEN mp, OF h1])
  have c2: "CreateBucket srv fs_one_bucket ''b'' = (fs_one_bucket, None)"
    by (rule T2 [THEN conjunct2, THEN conjunct2, THEN conjunct1, THEN mp, OF h2,
          THEN conjunct2])
  have c3: "\<exists>bs. ListBuckets srv fs_one_bucket = Inr bs
         \<and> length (filter (\<lambda>x. Name x = ''b'') bs) = 1"
    by (rule T2 [THEN conjunct2, THEN conjunct2, THEN conjunct2, THEN mp, OF h3])
  show ?thesis
    by (intro conjI) (fact h1 c1 h2 c2 h3 [THEN conjunct1]
        h3 [THEN conjunct2, THEN conjunct1] e c3)+
qed

text \<open>
  \<open>DeleteBucket\<close> fails when nothing is at the path of the bucket and when the
  directory of the bucket has an entry, and a failed call leaves the file system as it
  was: the bucket and all its contents are intact.
\<close>

lemma DeleteBucket_fails_unchanged:
  "(os_Stat fs (Join [root s, b]) = Inl e
      \<or> (\<exists>es. os_Stat fs (Join [root s, b]) = Inr (Directory es) \<and> es \<noteq> [])
    \<longrightarrow> (\<exists>err. DeleteBucket s fs b = (fs, Some err)))
   \<and> (DeleteBucket s fs b = (fs', Some err') \<longrightarrow> fs' = fs)"
proof (intro conjI impI)
  assume "os_Stat fs (Join [root s, b]) = Inl e
      \<or> (\<exists>es. os_Stat fs (Join [root s, b]) = Inr (Directory es) \<and> es \<noteq> [])"
  from os_Remove_fails [OF this] show "\<exists>err. DeleteBucket s fs b = (fs, Some err)"
    by (auto simp: DeleteBucket_def)
next
  assume "DeleteBucket s fs b = (fs', Some err')"
  then obtain e where "os_Remove fs (Join [root s, b]) = (fs', Some e)"
    by (auto simp: DeleteBucket_def Let_def split: prod.splits option.splits)
  then show "fs' = fs" by (rule os_Remove_error_state)
qed

text \<open>
  C7.  \<open>DeleteBucket\<close> does not fail for every missing bucket.  Storing the key \<open>.\<close>
  in bucket \<open>plain\<close> leaves a regular file in the place of the bucket: the list of
  buckets, which keeps directories only, does not name \<open>plain\<close>.  For this missing
  bucket \<open>DeleteBucket\<close> returns no error and removes the file, and the dispatcher
  answers 204.  Deleting the bucket \<open>b\<close> that holds an object, and deleting a bucket
  with nothing at its path, fail as the claim says and leave the state as it was.
\<close>

theorem DeleteBucket_regular_file:
  "ServeHTTP srv fs_empty (request ''PUT'' ''/plain/.'' ''x'') = (fs_plain, WriteHeader StatusOK)
   \<and> os_Stat fs_plain (Join [root srv, ''plain'']) = Inr (RegFile ''x'')
   \<and> ListBuckets srv fs_plain = Inr []
   \<and> DeleteBucket srv fs_plain ''plain'' = (fs_empty, None)
   \<and> ServeHTTP srv fs_plain (request ''DELETE'' ''/plain'' [])
       = (fs_empty, WriteHeader StatusNoContent)
   \<and> DeleteBucket srv fs_nested ''b''
       = (fs_nested, Some (Errorf ''failed to delete bucket'' (PathError ENOTEMPTY)))
   \<and> DeleteBucket srv fs_nested ''missing''
       = (fs_nested, Some (Errorf ''failed to delete bucket'' (PathError ENOENT)))"
  by code_simp

section \<open>Objects\<close>







text \<open>
  C4.  \<open>GetObject\<close> on a path that names a directory does not fail: in the bucket \<open>b\<close>
  that holds \<open>dir/nested.txt\<close>, the key \<open>dir\<close> yields the directory as the stream and
  the size the system reports for it; the stream cannot be read, and the dispatcher
  answers 200 with that length and an empty body.
\<close>

theorem GetObject_directory:
  "GetObject srv fs_nested ''b'' ''dir''
     = Inr (Directory [(''nested.txt'', RegFile ''abc'')], 4096)
   \<and> ReadAll (Directory [(''nested.txt'', RegFile ''abc'')]) = Inl EISDIR
   \<and> ServeHTTP srv fs_nested (request ''GET'' ''/b/dir'' [])
       = (fs_nested, \<lparr>Status = 200, Content_Type = [], Content_Length = Some 4096,
                       Written = Data []\<rparr>)"
  by code_simp

text \<open>
  C8.  The status of a failure is chosen by the place of the call: a failure of
  \<open>GetObject\<close> gives 404; a failure of \<open>ListBuckets\<close>, \<open>CreateBucket\<close>,
  \<open>DeleteBucket\<close>, \<open>PutObject\<close>, \<open>DeleteObject\<close> or \<open>ListObjects\<close> gives 500; a method
  other than GET, PUT and DELETE gives 405.  Each of these responses is the one
  \<open>http.Error\<close> writes: the status, the plain-text content type and the message.
\<close>

theorem ServeHTTP_failure_status:
  "(Method r = ''GET'' \<and> request_key r \<noteq> []
      \<and> GetObject s fs (request_bucket r) (request_key r) = Inl err
    \<longrightarrow> snd (ServeHTTP s fs r) = http_Error (ErrorText err) StatusNotFound)
   \<and> (Method r = ''GET'' \<and> request_path r = [] \<and> ListBuckets s fs = Inl err
    \<longrightarrow> snd (ServeHTTP s fs r) = http_Error (ErrorText err) StatusInternalServerError)
   \<and> (Method r = ''GET'' \<and> request_path r \<noteq> [] \<and> request_key r = []
      \<and> ListObjects s fs (request_bucket r) (Query_prefix r) = Inl err
    \<longrightarrow> snd (ServeHTTP s fs r) = http_Error (ErrorText err) StatusInternalServerError)
   \<and> (Method r = ''PUT'' \<and> request_key r = []
      \<and> snd (CreateBucket s fs (request_bucket r)) = Some err
    \<longrightarrow> snd (ServeHTTP s fs r) = http_Error (ErrorText err) StatusInternalServerError)
   \<and> (Method r = ''PUT'' \<and> request_key r \<noteq> []
      \<and> snd (PutObject s fs (request_bucket r) (request_key r) (Body r) (ContentLength r))
          = Some err
    \<longrightarrow> snd (ServeHTTP s fs r) = http_Error (ErrorText err) StatusInternalServerError)
   \<and> (Method r = ''DELETE'' \<and> request_key r = []
      \<and> snd (DeleteBucket s fs (request_bucket r)) = Some err
    \<longrightarrow> snd (ServeHTTP s fs r) = http_Error (ErrorText err) StatusInternalServerError)
   \<and> (Method r = ''DELETE'' \<and> request_key r \<noteq> []
      \<and> snd (DeleteObject s fs (request_bucket r) (request_key r)) = Some err
    \<longrightarrow> snd (ServeHTTP s fs r) = http_Error (ErrorText err) StatusInternalServerError)
   \<and> (Method r \<noteq> ''GET'' \<and> Method r \<noteq> ''PUT'' \<and> Method r \<noteq> ''DELETE''
    \<longrightarrow> snd (ServeHTTP s fs r)
          = http_Error (Literal ''Method not allowed'') StatusMethodNotAllowed)
   \<and> Status (http_Error msg code) = code
   \<and> Content_Type (http_Error msg code) = ''text/plain; charset=utf-8''
   \<and> Written (http_Error msg code) = Text msg
   \<and> StatusNotFound = 404 \<and> StatusInternalServerError = 500 \<and> StatusMethodNotAllowed = 405"
proof -
  have get: "Method r = ''GET'' \<Longrightarrow> request_key r \<noteq> [] \<Longrightarrow>
      GetObject s fs (request_bucket r) (request_key r) = Inl err \<Longrightarrow>
      snd (ServeHTTP s fs r) = http_Error (ErrorText err) StatusNotFound"
    by (auto simp: ServeHTTP_routes request_key_def request_path_def SplitN2_def)
  have lb: "Method r = ''GET'' \<Longrightarrow> request_path r = [] \<Longrightarrow> ListBuckets s fs = Inl err \<Longrightarrow>
      snd (ServeHTTP s fs r) = http_Error (ErrorText err) StatusInternalServerError"
    by (simp add: ServeHTTP_routes)
  have lo: "Method r = ''GET'' \<Longrightarrow> request_path r \<noteq> [] \<Longrightarrow> request_key r = [] \<Longrightarrow>
      ListObjects s fs (request_bucket r) (Query_prefix r) = Inl err \<Longrightarrow>
      snd (ServeHTTP s fs r) = http_Error (ErrorText err) StatusInternalServerError"
    by (simp add: ServeHTTP_routes)
  have cb: "Method r = ''PUT'' \<Longrightarrow> request_key r = [] \<Longrightarrow>
      snd (CreateBucket s fs (request_bucket r)) = Some err \<Longrightarrow>
      snd (ServeHTTP s fs r) = http_Error (ErrorText err) StatusInternalServerError"
    by (cases "CreateBucket s fs (request_bucket r)") (simp add: ServeHTTP_routes)
  have po: "Method r = ''PUT'' \<Longrightarrow> request_key r \<noteq> [] \<Longrightarrow>
      snd (PutObject s fs (request_bucket r) (request_key r) (Body r) (ContentLength r))
        = Some err \<Longrightarrow>
      snd (ServeHTTP s fs r) = http_Error (ErrorText err) StatusInternalServerError"
    by (cases "PutObject s fs (request_bucket r) (request_key r) (Body r) (ContentLength r)")
      (simp add: ServeHTTP_routes)
  have db: "Method r = ''DELETE'' \<Longrightarrow> request_key r = [] \<Longrightarrow>
      snd (DeleteBucket s fs (request_bucket r)) = Some err \<Longrightarrow>
      snd (ServeHTTP s fs r) = http_Error (ErrorText err) StatusInternalServerError"
    by (cases "DeleteBucket s fs (request_bucket r)") (simp add: ServeHTTP_routes)
  have dob: "Method r = ''DELETE'' \<Longrightarrow> request_key r \<noteq> [] \<Longrightarrow>
      snd (DeleteObject s fs (request_bucket r) (request_key r)) = Some err \<Longrightarrow>
      snd (ServeHTTP s fs r) = http_Error (ErrorText err) StatusInternalServerError"
    by (cases "DeleteObject s fs (request_bucket r) (request_key r)")
      (simp add: ServeHTTP_routes)
  have other: "Method r \<noteq> ''GET'' \<Longrightarrow> Method r \<noteq> ''PUT'' \<Longrightarrow> Method r \<noteq> ''DELETE'' \<Longrightarrow>
      snd (ServeHTTP s fs r)
        = http_Error (Literal ''Method not allowed'') StatusMethodNotAllowed"
    by (simp add: ServeHTTP_routes)
  have fmt: "Status (http_Error msg code) = code"
    "Content_Type (http_Error msg code) = ''text/plain; charset=utf-8''"
    "Written (http_Error msg code) = Text msg"
    by (simp_all add: http_Error_def)
  have codes: "StatusNotFound = 404" "StatusInternalServerError = 500"
    "StatusMethodNotAllowed = 405"
    by (simp_all add: StatusNotFound_def StatusInternalServerError_def
        StatusMethodNotAllowed_def)
  from get have 1: "Method r = ''GET'' \<and> request_key r \<noteq> []
      \<and> GetObject s fs (request_bucket r) (request_key r) = Inl err
    \<longrightarrow> snd (ServeHTTP s fs r) = http_Error (ErrorText err) StatusNotFound" by blast
  from lb have 2: "Method r = ''GET'' \<and> request_path r = [] \<and> ListBuckets s fs = Inl err
    \<longrightarrow> snd (ServeHTTP s fs r) = http_Error (ErrorText err) StatusInternalServerError"
    by blast
  from lo have 3: "Method r = ''GET'' \<and> request_path r \<noteq> [] \<and> request_key r = []
      \<and> ListObjects s fs (request_bucket r) (Query_prefix r) = Inl err
    \<longrightarrow> snd (ServeHTTP s fs r) = http_Error (ErrorText err) StatusInternalServerError"
    by blast
  from cb have 4: "Method r = ''PUT'' \<and> request_key r = []
      \<and> snd (CreateBucket s fs (request_bucket r)) = Some err
    \<longrightarrow> snd (ServeHTTP s fs r) = http_Error (ErrorText err) StatusInternalServerError"
    by blast
  from po have 5: "Method r = ''PUT'' \<and> request_key r \<noteq> []
      \<and> snd (PutObject s fs (request_bucket r) (request_key r) (Body r) (ContentLength r))
          = Some err
    \<longrightarrow> snd (ServeHTTP s fs r) = http_Error (ErrorText err) StatusInternalServerError"
    by blast
  from db have 6: "Method r = ''DELETE'' \<and> request_key r = []
      \<and> snd (DeleteBucket s fs (request_bucket r)) = Some err
    \<longrightarrow> snd (ServeHTTP s fs r) = http_Error (ErrorText err) StatusInternalServerError"
    by blast
  from dob have 7: "Method r = ''DELETE'' \<and> request_key r \<noteq> []
      \<and> snd (DeleteObject s fs (request_bucket r) (request_key r)) = Some err
    \<longrightarrow> snd (ServeHTTP s fs r) = http_Error (ErrorText err) StatusInternalServerError"
    by blast
  from other have 8: "Method r \<noteq> ''GET'' \<and> Method r \<noteq> ''PUT'' \<and> Method r \<noteq> ''DELETE''
    \<longrightarrow> snd (ServeHTTP s fs r)
          = http_Error (Literal ''Method not allowed'') StatusMethodNotAllowed"
    by blast
  show ?thesis
    by (intro conjI) (fact 1 2 3 4 5 6 7 8 fmt codes)+
qed

theorem ServeHTTP_failure_status_witness:
  "GetObject srv fs_blocked ''b'' ''k'' = Inl (Errorf ''failed to stat object'' (PathError ENOTDIR))
   \<and> snd (ServeHTTP srv fs_blocked (request ''GET'' ''/b/k'' []))
       = http_Error (ErrorText (Errorf ''failed to stat object'' (PathError ENOTDIR)))
           StatusNotFound
   \<and> snd (ServeHTTP srv fs_blocked (request ''GET'' ''/'' []))
       = http_Error (ErrorText (Errorf ''failed to read buckets'' (PathError ENOTDIR)))
           StatusInternalServerError
   \<and> snd (ServeHTTP srv fs_blocked (request ''GET'' ''/b'' []))
       = http_Error (ErrorText (Errorf ''failed to list objects'' (PathError ENOTDIR)))
           StatusInternalServerError
   \<and> snd (ServeHTTP srv fs_blocked (request ''PUT'' ''/b'' []))
       = http_Error (ErrorText (Errorf ''failed to create bucket'' (PathError ENOTDIR)))
           StatusInternalServerError
   \<and> snd (ServeHTTP srv fs_blocked (request ''PUT'' ''/b/k'' ''abc''))
       = http_Error (ErrorText (Errorf ''failed to create object directory'' (PathError ENOTDIR)))
           StatusInternalServerError
   \<and> snd (ServeHTTP srv fs_blocked (request ''DELETE'' ''/b'' []))
       = http_Error (ErrorText (Errorf ''failed to delete bucket'' (PathError ENOTDIR)))
           StatusInternalServerError
   \<and> snd (ServeHTTP srv fs_blocked (request ''DELETE'' ''/b/k'' []))
       = http_Error (ErrorText (Errorf ''failed to delete object'' (PathError ENOTDIR)))
           StatusInternalServerError
   \<and> snd (ServeHTTP srv fs_blocked (request ''POST'' ''/b/k'' []))
       = http_Error (Literal ''Method not allowed'') StatusMethodNotAllowed"
proof -
  have h1: "Method (request ''GET'' ''/b/k'' []) = ''GET''
      \<and> request_key (request ''GET'' ''/b/k'' []) \<noteq> []
      \<and> GetObject srv fs_blocked (request_bucket (request ''GET'' ''/b/k'' []))
           (request_key (request ''GET'' ''/b/k'' []))
         = Inl (Errorf ''failed to stat object'' (PathError ENOTDIR))"
    by code_simp
  have h2: "Method (request ''GET'' ''/'' []) = ''GET''
      \<and> request_path (request ''GET'' ''/'' []) = []
      \<and> ListBuckets srv fs_blocked
         = Inl (Errorf ''failed to read buckets'' (PathError ENOTDIR))"
    by code_simp
  have h3: "Method (request ''GET'' ''/b'' []) = ''GET''
      \<and> request_path (request ''GET'' ''/b'' []) \<noteq> []
      \<and> request_key (request ''GET'' ''/b'' []) = []
      \<and> ListObjects srv fs_blocked (request_bucket (request ''GET'' ''/b'' []))
           (Query_prefix (request ''GET'' ''/b'' []))
         = Inl (Errorf ''failed to list objects'' (PathError ENOTDIR))"
    by code_simp
  have h4: "Method (request ''PUT'' ''/b'' []) = ''PUT''
      \<and> request_key (request ''PUT'' ''/b'' []) = []
      \<and> snd (CreateBucket srv fs_blocked (request_bucket (request ''PUT'' ''/b'' [])))
         = Some (Errorf ''failed to create bucket'' (PathError ENOTDIR))"
    by code_simp
  have h5: "Method (request ''PUT'' ''/b/k'' ''abc'') = ''PUT''
      \<and> request_key (request ''PUT'' ''/b/k'' ''abc'') \<noteq> []
      \<and> snd (PutObject srv fs_blocked (request_bucket (request ''PUT'' ''/b/k'' ''abc''))
           (request_key (request ''PUT'' ''/b/k'' ''abc''))
           (Body (request ''PUT'' ''/b/k'' ''abc''))
           (ContentLength (request ''PUT'' ''/b/k'' ''abc'')))
         = Some (Errorf ''failed to create object directory'' (PathError ENOTDIR))"
    by code_simp
  have h6: "Method (request ''DELETE'' ''/b'' []) = ''DELETE''
      \<and> request_key (request ''DELETE'' ''/b'' []) = []
      \<and> snd (DeleteBucket srv fs_blocked (request_bucket (request ''DELETE'' ''/b'' [])))
         = Some (Errorf ''failed to delete bucket'' (PathError ENOTDIR))"
    by code_simp
  have h7: "Method (request ''DELETE'' ''/b/k'' []) = ''DELETE''
      \<and> request_key (request ''DELETE'' ''/b/k'' []) \<noteq> []
      \<and> snd (DeleteObject srv fs_blocked (request_bucket (request ''DELETE'' ''/b/k'' []))
           (request_key (request ''DELETE'' ''/b/k'' [])))
         = Some (Errorf ''failed to delete object'' (PathError ENOTDIR))"
    by code_simp
  have h8: "Method (request ''POST'' ''/b/k'' []) \<noteq> ''GET''
      \<and> Method (request ''POST'' ''/b/k'' []) \<noteq> ''PUT''
      \<and> Method (request ''POST'' ''/b/k'' []) \<noteq> ''DELETE''"
    by code_simp
  have g: "GetObject srv fs_blocked ''b'' ''k''
      = Inl (Errorf ''failed to stat object'' (PathError ENOTDIR))"
    by code_simp
  note T = ServeHTTP_failure_status [where s = srv and fs = fs_blocked]
  have c1: "snd (ServeHTTP srv fs_blocked (request ''GET'' ''/b/k'' []))
       = http_Error (ErrorText (Errorf ''failed to stat object'' (PathError ENOTDIR)))
           StatusNotFound"
    by (rule T [of "request ''GET'' ''/b/k'' []" "Errorf ''failed to stat object'' (PathError ENOTDIR)", THEN conjunct1, THEN mp, OF h1])
  have c2: "snd (ServeHTTP srv fs_blocked (request ''GET'' ''/'' []))
       = http_Error (ErrorText (Errorf ''failed to read buckets'' (PathError ENOTDIR)))
           StatusInternalServerError"
    by (rule T [of "request ''GET'' ''/'' []" "Errorf ''failed to read buckets'' (PathError ENOTDIR)", THEN conjunct2, THEN conjunct1, THEN mp, OF h2])
  have c3: "snd (ServeHTTP srv fs_blocked (request ''GET'' ''/b'' []))
       = http_Error (ErrorText (Errorf ''failed to list objects'' (PathError ENOTDIR)))
           StatusInternalServerError"
    by (rule T [of "request ''GET'' ''/b'' []" "Errorf ''failed to list objects'' (PathError ENOTDIR)", THEN conjunct2, THEN conjunct2, THEN conjunct1, THEN mp, OF h3])
  have c4: "snd (ServeHTTP srv fs_blocked (request ''PUT'' ''/b'' []))
       = http_Error (ErrorText (Errorf ''failed to create bucket'' (PathError ENOTDIR)))
           StatusInternalServerError"
    by (rule T [of "request ''PUT'' ''/b'' []" "Errorf ''failed to create bucket'' (PathError ENOTDIR)", THEN conjunct2, THEN conjunct2, THEN conjunct2, THEN conjunct1, THEN mp, OF h4])
  have c5: "snd (ServeHTTP srv fs_blocked (request ''PUT'' ''/b/k'' ''abc''))
       = http_Error (ErrorText (Errorf ''failed to create object directory'' (PathError ENOTDIR)))
           StatusInternalServerError"
    by (rule T [of "request ''PUT'' ''/b/k'' ''abc''" "Errorf ''failed to create object directory'' (PathError ENOTDIR)", THEN conjunct2, THEN conjunct2, THEN conjunct2, THEN conjunct2, THEN conjunct1, THEN mp, OF h5])
  have c6: "snd (ServeHTTP srv fs_blocked (request ''DELETE'' ''/b'' []))
       = http_Error (ErrorText (Errorf ''failed to delete bucket'' (PathError ENOTDIR)))
           StatusInternalServerError"
    by (rule T [of "request ''DELETE'' ''/b'' []" "Errorf ''failed to delete bucket'' (PathError ENOTDIR)", THEN conjunct2, THEN conjunct2, THEN conjunct2, THEN conjunct2, THEN conjunct2, THEN conjunct1, THEN mp, OF h6])
  have c7: "snd (ServeHTTP srv fs_blocked (request ''DELETE'' ''/b/k'' []))
       = http_Error (ErrorText (Errorf ''failed to delete object'' (PathError ENOTDIR)))
           StatusInternalServerError"
    by (rule T [of "request ''DELETE'' ''/b/k'' []" "Errorf ''failed to delete object'' (PathError ENOTDIR)", THEN conjunct2, THEN conjunct2, THEN conjunct2, THEN conjunct2, THEN conjunct2, THEN conjunct2, THEN conjunct1, THEN mp, OF h7])
  have c8: "snd (ServeHTTP srv fs_blocked (request ''POST'' ''/b/k'' []))
       = http_Error (Literal ''Method not allowed'') StatusMethodNotAllowed"
    by (rule T [of "request ''POST'' ''/b/k'' []", THEN conjunct2, THEN conjunct2, THEN conjunct2, THEN conjunct2, THEN conjunct2, THEN conjunct2, THEN conjunct2, THEN conjunct1, THEN mp, OF h8])
  show ?thesis
    by (intro conjI) (fact g c1 c2 c3 c4 c5 c6 c7 c8)+
qed

lemma request_root:
  "URL_Path r = ''/'' \<Longrightarrow> request_path r = [] \<and> request_bucket r = [] \<and> request_key r = []"
  by (simp add: request_path_def request_bucket_def request_key_def TrimPrefix_def SplitN2_def)

text \<open>
  C10, as the code has it.  A PUT or DELETE request for the path \<open>/\<close> has the empty
  bucket name, and the bucket operation acts on the storage root.  When the root is an
  existing directory, PUT answers 200 and leaves the file system as it is.  DELETE
  answers 204 and removes the root when the root is an empty directory whose cleaned
  path ends in a proper name.  DELETE answers 500 and changes nothing when the root
  directory has an entry, when nothing is at the path of the root, and when the cleaned
  path of the root does not end in a proper name (it is \<open>.\<close> or \<open>/\<close>, or ends in
  \<open>..\<close>): such a path the system does not remove, empty directory or not.
\<close>

theorem root_path_requests:
  "URL_Path r = ''/'' \<longrightarrow>
     request_bucket r = [] \<and> request_key r = []
     \<and> (root s \<noteq> [] \<longrightarrow> os_Stat fs (Join [root s, request_bucket r]) = os_Stat fs (root s))
     \<and> (Method r = ''PUT'' \<and> os_Stat fs (root s) = Inr (Directory es)
          \<longrightarrow> ServeHTTP s fs r = (fs, WriteHeader StatusOK))
     \<and> (Method r = ''DELETE'' \<and> os_Stat fs (root s) = Inr (Directory [])
          \<and> ends_in_name (Clean (root s))
          \<longrightarrow> (\<exists>fs'. ServeHTTP s fs r = (fs', WriteHeader StatusNoContent)
                 \<and> os_Stat fs' (root s) = Inl ENOENT))
     \<and> (Method r = ''DELETE''
          \<and> (os_Stat fs (root s) = Inr (Directory es) \<and> es \<noteq> []
               \<or> os_Stat fs (root s) = Inl e
               \<or> \<not> ends_in_name (Clean (root s)))
          \<longrightarrow> (\<exists>err. ServeHTTP s fs r
                   = (fs, http_Error (ErrorText err) StatusInternalServerError)))"
proof
  assume u: "URL_Path r = ''/''"
  from request_root [OF u] have rp: "request_path r = []" and rb: "request_bucket r = []"
    and rk: "request_key r = []" by simp_all
  have same: "os_Stat fs (Join [root s, []]) = os_Stat fs (root s)" if "root s \<noteq> []"
    using that by (simp add: Join_root_empty os_Stat_Clean)
  have put: "ServeHTTP s fs r = (fs, WriteHeader StatusOK)"
    if "Method r = ''PUT''" "os_Stat fs (root s) = Inr (Directory es)"
  proof -
    have ne: "root s \<noteq> []" using that(2) by (rule os_Stat_nonempty)
    have "os_MkdirAll fs (Join [root s, []]) = (fs, None)"
      using os_MkdirAll_existing [of fs "Join [root s, []]" es] same [OF ne] that(2) by simp
    then have "CreateBucket s fs [] = (fs, None)" by (simp add: CreateBucket_def)
    with that(1) rp rb rk show ?thesis by (simp add: ServeHTTP_routes)
  qed
  have del_ok: "\<exists>fs'. ServeHTTP s fs r = (fs', WriteHeader StatusNoContent)
                 \<and> os_Stat fs' (root s) = Inl ENOENT"
    if "Method r = ''DELETE''" "os_Stat fs (root s) = Inr (Directory [])"
      "ends_in_name (Clean (root s))"
  proof -
    have ne: "root s \<noteq> []" using that(2) by (rule os_Stat_nonempty)
    have "os_Stat fs (Clean (root s)) = Inr (Directory [])"
      using that(2) ne by (simp add: os_Stat_Clean)
    from os_Remove_empty_dir [OF this that(3)] obtain fs' where
      fs': "os_Remove fs (Clean (root s)) = (fs', None)"
      "os_Stat fs' (Clean (root s)) = Inl ENOENT" by blast
    then have "DeleteBucket s fs [] = (fs', None)"
      using ne by (simp add: DeleteBucket_def Join_root_empty)
    with that(1) rp rb rk have "ServeHTTP s fs r = (fs', WriteHeader StatusNoContent)"
      by (simp add: ServeHTTP_routes)
    moreover have "os_Stat fs' (root s) = Inl ENOENT"
      using fs'(2) ne by (simp add: os_Stat_Clean)
    ultimately show ?thesis by blast
  qed
  have del_fail: "\<exists>err. ServeHTTP s fs r
                   = (fs, http_Error (ErrorText err) StatusInternalServerError)"
    if m: "Method r = ''DELETE''" and c: "os_Stat fs (root s) = Inr (Directory es) \<and> es \<noteq> []
               \<or> os_Stat fs (root s) = Inl e
               \<or> \<not> ends_in_name (Clean (root s))"
  proof -
    have "\<exists>e'. os_Remove fs (Join [root s, []]) = (fs, Some e')"
    proof (cases "root s = []")
      case True
      then have "Join [root s, []] = []" by (simp add: Join_def)
      then show ?thesis by (simp add: os_Remove_def resolve_def)
    next
      case ne: False
      from c consider
        (stat) "os_Stat fs (root s) = Inr (Directory es) \<and> es \<noteq> [] \<or> os_Stat fs (root s) = Inl e"
        | (name) "\<not> ends_in_name (Clean (root s))" by blast
      then show ?thesis
      proof cases
        case stat
        then have "os_Stat fs (Join [root s, []]) = Inl e
            \<or> (\<exists>es. os_Stat fs (Join [root s, []]) = Inr (Directory es) \<and> es \<noteq> [])"
          using same [OF ne] by auto
        then show ?thesis by (rule os_Remove_fails)
      next
        case name
        from os_Remove_not_name [OF ne name] show ?thesis
          using ne by (simp add: Join_root_empty)
      qed
    qed
    then obtain e' where "os_Remove fs (Join [root s, []]) = (fs, Some e')" by blast
    then have "DeleteBucket s fs [] = (fs, Some (Errorf ''failed to delete bucket'' (PathError e')))"
      by (simp add: DeleteBucket_def)
    with m rp rb rk have "ServeHTTP s fs r
        = (fs, http_Error (ErrorText (Errorf ''failed to delete bucket'' (PathError e')))
                 StatusInternalServerError)"
      by (simp add: ServeHTTP_routes)
    then show ?thesis by blast
  qed
  have 1: "root s \<noteq> [] \<longrightarrow> os_Stat fs (Join [root s, request_bucket r]) = os_Stat fs (root s)"
    using same rb by simp
  have 2: "Method r = ''PUT'' \<and> os_Stat fs (root s) = Inr (Directory es)
          \<longrightarrow> ServeHTTP s fs r = (fs, WriteHeader StatusOK)"
    using put by blast
  have 3: "Method r = ''DELETE'' \<and> os_Stat fs (root s) = Inr (Directory [])
          \<and> ends_in_name (Clean (root s))
          \<longrightarrow> (\<exists>fs'. ServeHTTP s fs r = (fs', WriteHeader StatusNoContent)
                 \<and> os_Stat fs' (root s) = Inl ENOENT)"
    using del_ok by blast
  have 4: "Method r = ''DELETE''
          \<and> (os_Stat fs (root s) = Inr (Directory es) \<and> es \<noteq> []
               \<or> os_Stat fs (root s) = Inl e
               \<or> \<not> ends_in_name (Clean (root s)))
          \<longrightarrow> (\<exists>err. ServeHTTP s fs r
                   = (fs, http_Error (ErrorText err) StatusInternalServerError))"
    using del_fail by blast
  show "request_bucket r = [] \<and> request_key r = []
     \<and> (root s \<noteq> [] \<longrightarrow> os_Stat fs (Join [root s, request_bucket r]) = os_Stat fs (root s))
     \<and> (Method r = ''PUT'' \<and> os_Stat fs (root s) = Inr (Directory es)
          \<longrightarrow> ServeHTTP s fs r = (fs, WriteHeader StatusOK))
     \<and> (Method r = ''DELETE'' \<and> os_Stat fs (root s) = Inr (Directory [])
          \<and> ends_in_name (Clean (root s))
          \<longrightarrow> (\<exists>fs'. ServeHTTP s fs r = (fs', WriteHeader StatusNoContent)
                 \<and> os_Stat fs' (root s) = Inl ENOENT))
     \<and> (Method r = ''DELETE''
          \<and> (os_Stat fs (root s) = Inr (Directory es) \<and> es \<noteq> []
               \<or> os_Stat fs (root s) = Inl e
               \<or> \<not> ends_in_name (Clean (root s)))
          \<longrightarrow> (\<exists>err. ServeHTTP s fs r
                   = (fs, http_Error (ErrorText err) StatusInternalServerError)))"
    by (intro conjI) (fact rb rk 1 2 3 4)+
qed

theorem root_path_requests_witness:
  "ServeHTTP srv fs_nested (request ''PUT'' ''/'' []) = (fs_nested, WriteHeader StatusOK)
   \<and> (\<exists>fs'. ServeHTTP srv fs_empty (request ''DELETE'' ''/'' [])
               = (fs', WriteHeader StatusNoContent)
             \<and> os_Stat fs' (root srv) = Inl ENOENT)
   \<and> ServeHTTP srv fs_empty (request ''DELETE'' ''/'' []) = (fs_bare, WriteHeader StatusNoContent)
   \<and> (\<exists>err. ServeHTTP srv fs_nested (request ''DELETE'' ''/'' [])
               = (fs_nested, http_Error (ErrorText err) StatusInternalServerError))
   \<and> (\<exists>err. ServeHTTP srv fs_bare (request ''DELETE'' ''/'' [])
               = (fs_bare, http_Error (ErrorText err) StatusInternalServerError))
   \<and> os_Stat fs_bare (root srv_top) = Inr (Directory [])
   \<and> (\<exists>err. ServeHTTP srv_top fs_bare (request ''DELETE'' ''/'' [])
               = (fs_bare, http_Error (ErrorText err) StatusInternalServerError))"
proof -
  let ?tree = "[(''b'', Directory [(''dir'', Directory [(''nested.txt'', RegFile ''abc'')])]),
               (''c'', Directory [])]"
  have u1: "URL_Path (request ''PUT'' ''/'' []) = ''/''" by code_simp
  have u2: "URL_Path (request ''DELETE'' ''/'' []) = ''/''" by code_simp
  have h1: "Method (request ''PUT'' ''/'' []) = ''PUT''
      \<and> os_Stat fs_nested (root srv) = Inr (Directory ?tree)"
    by code_simp
  have h2: "Method (request ''DELETE'' ''/'' []) = ''DELETE''
      \<and> os_Stat fs_empty (root srv) = Inr (Directory [])
      \<and> ends_in_name (Clean (root srv))"
    by code_simp
  have s3: "os_Stat fs_nested (root srv) = Inr (Directory ?tree)" and n3: "?tree \<noteq> []"
    by code_simp+
  have m: "Method (request ''DELETE'' ''/'' []) = ''DELETE''" by code_simp
  have h3: "Method (request ''DELETE'' ''/'' []) = ''DELETE''
      \<and> (os_Stat fs_nested (root srv) = Inr (Directory ?tree) \<and> ?tree \<noteq> []
        \<or> os_Stat fs_nested (root srv) = Inl ENOENT
        \<or> \<not> ends_in_name (Clean (root srv)))"
    by (intro conjI disjI1) (fact m s3 n3)+
  have s4: "os_Stat fs_bare (root srv) = Inl ENOENT" by code_simp
  have h4: "Method (request ''DELETE'' ''/'' []) = ''DELETE''
      \<and> (os_Stat fs_bare (root srv) = Inr (Directory ?tree) \<and> ?tree \<noteq> []
        \<or> os_Stat fs_bare (root srv) = Inl ENOENT
        \<or> \<not> ends_in_name (Clean (root srv)))"
    by (intro conjI disjI2 disjI1) (fact m s4)+
  have s5: "\<not> ends_in_name (Clean (root srv_top))" by code_simp
  have h5: "Method (request ''DELETE'' ''/'' []) = ''DELETE''
      \<and> (os_Stat fs_bare (root srv_top) = Inr (Directory ?tree) \<and> ?tree \<noteq> []
        \<or> os_Stat fs_bare (root srv_top) = Inl ENOENT
        \<or> \<not> ends_in_name (Clean (root srv_top)))"
    by (intro conjI disjI2) (fact m s5)+
  have e: "ServeHTTP srv fs_empty (request ''DELETE'' ''/'' [])
       = (fs_bare, WriteHeader StatusNoContent)"
    by code_simp
  have e5: "os_Stat fs_bare (root srv_top) = Inr (Directory [])" by code_simp
  note T1 = root_path_requests [of "request ''PUT'' ''/'' []" srv fs_nested, THEN mp, OF u1]
  note T2 = root_path_requests [of "request ''DELETE'' ''/'' []" srv fs_empty, THEN mp, OF u2]
  note T3 = root_path_requests [of "request ''DELETE'' ''/'' []" srv fs_nested, THEN mp, OF u2]
  note T4 = root_path_requests [of "request ''DELETE'' ''/'' []" srv fs_bare, THEN mp, OF u2]
  note T5 = root_path_requests [of "request ''DELETE'' ''/'' []" srv_top fs_bare, THEN mp, OF u2]
  have c1: "ServeHTTP srv fs_nested (request ''PUT'' ''/'' []) = (fs_nested, WriteHeader StatusOK)"
    by (rule T1 [THEN conjunct2, THEN conjunct2, THEN conjunct2, THEN conjunct1, THEN mp, OF h1])
  have c2: "\<exists>fs'. ServeHTTP srv fs_empty (request ''DELETE'' ''/'' [])
               = (fs', WriteHeader StatusNoContent)
             \<and> os_Stat fs' (root srv) = Inl ENOENT"
    by (rule T2 [THEN conjunct2, THEN conjunct2, THEN conjunct2, THEN conjunct2,
          THEN conjunct1, THEN mp, OF h2])
  have c3: "\<exists>err. ServeHTTP srv fs_nested (request ''DELETE'' ''/'' [])
               = (fs_nested, http_Error (ErrorText err) StatusInternalServerError)"
    by (rule T3 [THEN conjunct2, THEN conjunct2, THEN conjunct2, THEN conjunct2,
          THEN conjunct2, THEN mp, OF h3])
  have c4: "\<exists>err. ServeHTTP srv fs_bare (request ''DELETE'' ''/'' [])
               = (fs_bare, http_Error (ErrorText err) StatusInternalServerError)"
    by (rule T4 [THEN conjunct2, THEN conjunct2, THEN conjunct2, THEN conjunct2,
          THEN conjunct2, THEN mp, OF h4])
  have c5: "\<exists>err. ServeHTTP srv_top fs_bare (request ''DELETE'' ''/'' [])
               = (fs_bare, http_Error (ErrorText err) StatusInternalServerError)"
    by (rule T5 [THEN conjunct2, THEN conjunct2, THEN conjunct2, THEN conjunct2,
          THEN conjunct2, THEN mp, OF h5])
  show ?thesis by (intro conjI) (fact c1 c2 e c3 c4 e5 c5)+
qed

text \<open>
  The claim C10 as it is stated fails for a storage root that is the working directory:
  the root \<open>.\<close> is an empty directory, and DELETE for the path \<open>/\<close> answers 500 and
  removes nothing, the system refusing to remove \<open>.\<close>.
\<close>

theorem root_dot_counterexample:
  "os_Stat fs_here (root srv_here) = Inr (Directory [])
   \<and> Join [root srv_here, request_bucket (request ''DELETE'' ''/'' [])] = ''.''
   \<and> ServeHTTP srv_here fs_here (request ''DELETE'' ''/'' [])
       = (fs_here, http_Error (ErrorText (Errorf ''failed to delete bucket'' (PathError EINVAL)))
                     StatusInternalServerError)
   \<and> StatusInternalServerError \<noteq> StatusNoContent"
  by code_simp

text \<open>
  C9.  The dispatcher cuts the path behind its leading slash at the first slash: what
  stands before is the bucket, what follows is the key, whatever the two strings are,
  and the backend is called with exactly these strings.  A key that begins with \<open>../\<close>
  leaves the directory of its bucket: in any bucket with a proper name, the key
  \<open>../c/x\<close> names the object \<open>x\<close> of bucket \<open>c\<close>, for reading and for writing.
\<close>

theorem path_split_unchecked:
  "(CHR ''/'' \<notin> set b \<and> URL_Path r = ''/'' @ b @ ''/'' @ k
      \<longrightarrow> request_bucket r = b \<and> request_key r = k)
   \<and> (CHR ''/'' \<notin> set b \<and> URL_Path r = ''/'' @ b
      \<longrightarrow> request_bucket r = b \<and> request_key r = [])
   \<and> (Method r = ''PUT'' \<and> request_key r \<noteq> []
      \<longrightarrow> fst (ServeHTTP s fs r)
          = fst (PutObject s fs (request_bucket r) (request_key r) (Body r) (ContentLength r)))
   \<and> (Method r = ''GET'' \<and> request_key r \<noteq> []
      \<longrightarrow> snd (ServeHTTP s fs r)
          = (case GetObject s fs (request_bucket r) (request_key r) of
               Inl err \<Rightarrow> http_Error (ErrorText err) StatusNotFound
             | Inr (rc, sz) \<Rightarrow> write_object rc sz))
   \<and> (Method r = ''DELETE'' \<and> request_key r \<noteq> []
      \<longrightarrow> fst (ServeHTTP s fs r)
          = fst (DeleteObject s fs (request_bucket r) (request_key r)))
   \<and> (root s \<noteq> [] \<and> valid_name b \<and> c \<noteq> []
      \<longrightarrow> Join [root s, b, ''../'' @ c @ ''/'' @ x] = Join [root s, c, x]
        \<and> GetObject s fs b (''../'' @ c @ ''/'' @ x) = GetObject s fs c x
        \<and> PutObject s fs b (''../'' @ c @ ''/'' @ x) d sz = PutObject s fs c x d sz)"
proof -
  have 1: "CHR ''/'' \<notin> set b \<and> URL_Path r = ''/'' @ b @ ''/'' @ k
      \<longrightarrow> request_bucket r = b \<and> request_key r = k"
    using request_split(1) [of b r k] by blast
  have 2: "CHR ''/'' \<notin> set b \<and> URL_Path r = ''/'' @ b
      \<longrightarrow> request_bucket r = b \<and> request_key r = []"
    using request_split(2) [of b r] by blast
  have kp: "request_key r \<noteq> [] \<Longrightarrow> request_path r \<noteq> []"
    by (auto simp: request_key_def request_path_def SplitN2_def)
  have 3: "Method r = ''PUT'' \<and> request_key r \<noteq> []
      \<longrightarrow> fst (ServeHTTP s fs r)
          = fst (PutObject s fs (request_bucket r) (request_key r) (Body r) (ContentLength r))"
    by (cases "PutObject s fs (request_bucket r) (request_key r) (Body r) (ContentLength r)")
      (auto simp: ServeHTTP_routes split: option.splits)
  have 4: "Method r = ''GET'' \<and> request_key r \<noteq> []
      \<longrightarrow> snd (ServeHTTP s fs r)
          = (case GetObject s fs (request_bucket r) (request_key r) of
               Inl err \<Rightarrow> http_Error (ErrorText err) StatusNotFound
             | Inr (rc, sz) \<Rightarrow> write_object rc sz)"
    using kp by (auto simp: ServeHTTP_routes split: sum.splits)
  have 5: "Method r = ''DELETE'' \<and> request_key r \<noteq> []
      \<longrightarrow> fst (ServeHTTP s fs r)
          = fst (DeleteObject s fs (request_bucket r) (request_key r))"
    by (cases "DeleteObject s fs (request_bucket r) (request_key r)")
      (auto simp: ServeHTTP_routes split: option.splits)
  have 6: "root s \<noteq> [] \<and> valid_name b \<and> c \<noteq> []
      \<longrightarrow> Join [root s, b, ''../'' @ c @ ''/'' @ x] = Join [root s, c, x]
        \<and> GetObject s fs b (''../'' @ c @ ''/'' @ x) = GetObject s fs c x
        \<and> PutObject s fs b (''../'' @ c @ ''/'' @ x) d sz = PutObject s fs c x d sz"
  proof
    assume a: "root s \<noteq> [] \<and> valid_name b \<and> c \<noteq> []"
    then have j: "Join [root s, b, ''../'' @ c @ ''/'' @ x] = Join [root s, c, x]"
      using Join_escape [of "root s" b "c @ ''/'' @ x"] Join_three_two [of c "root s" x]
      by simp
    then show "Join [root s, b, ''../'' @ c @ ''/'' @ x] = Join [root s, c, x]
        \<and> GetObject s fs b (''../'' @ c @ ''/'' @ x) = GetObject s fs c x
        \<and> PutObject s fs b (''../'' @ c @ ''/'' @ x) d sz = PutObject s fs c x d sz"
      by (simp add: GetObject_def PutObject_def)
  qed
  show ?thesis by (intro conjI) (fact 1 2 3 4 5 6)+
qed

theorem path_split_unchecked_witness:
  "request_bucket (request ''PUT'' ''/b/../c/x'' ''P'') = ''b''
   \<and> request_key (request ''PUT'' ''/b/../c/x'' ''P'') = ''../c/x''
   \<and> request_bucket (request ''PUT'' ''/b'' []) = ''b''
   \<and> request_key (request ''PUT'' ''/b'' []) = []
   \<and> fst (ServeHTTP srv fs_nested (request ''PUT'' ''/b/../c/x'' ''P''))
       = fst (PutObject srv fs_nested ''b'' ''../c/x'' (bytes_reader ''P'') 1)
   \<and> snd (ServeHTTP srv fs_nested (request ''GET'' ''/b/../c/x'' []))
       = (case GetObject srv fs_nested ''b'' ''../c/x'' of
            Inl err \<Rightarrow> http_Error (ErrorText err) StatusNotFound
          | Inr (rc, sz) \<Rightarrow> write_object rc sz)
   \<and> fst (ServeHTTP srv fs_nested (request ''DELETE'' ''/b/../c/x'' []))
       = fst (DeleteObject srv fs_nested ''b'' ''../c/x'')
   \<and> Join [root srv, ''b'', ''../c/x''] = Join [root srv, ''c'', ''x'']
   \<and> Join [root srv, ''b'', ''../c/x''] = ''/data/c/x''
   \<and> Join [root srv, ''b''] = ''/data/b''
   \<and> PutObject srv fs_nested ''b'' ''../c/x'' (bytes_reader ''P'') 1
       = PutObject srv fs_nested ''c'' ''x'' (bytes_reader ''P'') 1
   \<and> GetObject srv (fst (PutObject srv fs_nested ''b'' ''../c/x'' (bytes_reader ''P'') 1))
        ''c'' ''x'' = Inr (RegFile ''P'', 1)"
proof -
  let ?put = "request ''PUT'' ''/b/../c/x'' ''P''"
  let ?get = "request ''GET'' ''/b/../c/x'' []"
  let ?del = "request ''DELETE'' ''/b/../c/x'' []"
  note T = path_split_unchecked [where s = srv and fs = fs_nested]
  have h1: "CHR ''/'' \<notin> set ''b'' \<and> URL_Path ?put = ''/'' @ ''b'' @ ''/'' @ ''../c/x''"
    by code_simp
  have c1: "request_bucket ?put = ''b'' \<and> request_key ?put = ''../c/x''"
    by (rule T [of "''b''" ?put "''../c/x''", THEN conjunct1, THEN mp, OF h1])
  have h2: "CHR ''/'' \<notin> set ''b'' \<and> URL_Path (request ''PUT'' ''/b'' []) = ''/'' @ ''b''"
    by code_simp
  have c2: "request_bucket (request ''PUT'' ''/b'' []) = ''b''
      \<and> request_key (request ''PUT'' ''/b'' []) = []"
    by (rule T [of "''b''" "request ''PUT'' ''/b'' []", THEN conjunct2, THEN conjunct1,
          THEN mp, OF h2])
  have h3: "Method ?put = ''PUT'' \<and> request_key ?put \<noteq> []" by code_simp
  have c3: "fst (ServeHTTP srv fs_nested ?put)
      = fst (PutObject srv fs_nested (request_bucket ?put) (request_key ?put) (Body ?put)
               (ContentLength ?put))"
    by (rule T [of _ ?put, THEN conjunct2, THEN conjunct2, THEN conjunct1, THEN mp, OF h3])
  have a3: "PutObject srv fs_nested (request_bucket ?put) (request_key ?put) (Body ?put)
               (ContentLength ?put)
      = PutObject srv fs_nested ''b'' ''../c/x'' (bytes_reader ''P'') 1"
    by code_simp
  have h4: "Method ?get = ''GET'' \<and> request_key ?get \<noteq> []" by code_simp
  have c4: "snd (ServeHTTP srv fs_nested ?get)
      = (case GetObject srv fs_nested (request_bucket ?get) (request_key ?get) of
           Inl err \<Rightarrow> http_Error (ErrorText err) StatusNotFound
         | Inr (rc, sz) \<Rightarrow> write_object rc sz)"
    by (rule T [of _ ?get, THEN conjunct2, THEN conjunct2, THEN conjunct2, THEN conjunct1,
          THEN mp, OF h4])
  have a4: "request_bucket ?get = ''b''" "request_key ?get = ''../c/x''" by code_simp+
  have h5: "Method ?del = ''DELETE'' \<and> request_key ?del \<noteq> []" by code_simp
  have c5: "fst (ServeHTTP srv fs_nested ?del)
      = fst (DeleteObject srv fs_nested (request_bucket ?del) (request_key ?del))"
    by (rule T [of _ ?del, THEN conjunct2, THEN conjunct2, THEN conjunct2, THEN conjunct2,
          THEN conjunct1, THEN mp, OF h5])
  have a5: "request_bucket ?del = ''b''" "request_key ?del = ''../c/x''" by code_simp+
  have h6: "root srv \<noteq> [] \<and> valid_name ''b'' \<and> ''c'' \<noteq> []" by code_simp
  have c6: "Join [root srv, ''b'', ''../'' @ ''c'' @ ''/'' @ ''x''] = Join [root srv, ''c'', ''x'']
      \<and> GetObject srv fs_nested ''b'' (''../'' @ ''c'' @ ''/'' @ ''x'')
          = GetObject srv fs_nested ''c'' ''x''
      \<and> PutObject srv fs_nested ''b'' (''../'' @ ''c'' @ ''/'' @ ''x'') (bytes_reader ''P'') 1
          = PutObject srv fs_nested ''c'' ''x'' (bytes_reader ''P'') 1"
    by (rule T [of "''b''" _ _ "''c''" "''x''" "bytes_reader ''P''" 1, THEN conjunct2, THEN conjunct2,
          THEN conjunct2, THEN conjunct2, THEN conjunct2, THEN mp, OF h6])
  have e1: "Join [root srv, ''b'', ''../c/x''] = ''/data/c/x''" by code_simp
  have e2: "Join [root srv, ''b''] = ''/data/b''" by code_simp
  have e3: "GetObject srv (fst (PutObject srv fs_nested ''b'' ''../c/x'' (bytes_reader ''P'') 1))
        ''c'' ''x'' = Inr (RegFile ''P'', 1)" by code_simp
  show ?thesis
    using c1 c2 c3 a3 c4 a4 c5 a5 c6 e1 e2 e3 by simp
qed

section \<open>Listing\<close>

text \<open>
  C2.  The listing for a prefix is the listing for the empty prefix, filtered: an object
  is kept if and only if the prefix is empty or its key starts with the prefix (and both
  listings fail together).  For a bucket whose directory exists, the keys returned are
  exactly the keys in canonical form under which an object exists in the bucket and
  which start with the prefix.
\<close>

theorem ListObjects_prefix_filter:
  "ListObjects s fs b pre
     = (case ListObjects s fs b [] of
          Inl e \<Rightarrow> Inl e
        | Inr all \<Rightarrow> Inr (filter (\<lambda>ob. pre = [] \<or> prefix pre (Key ob)) all))
   \<and> (wf_fs fs \<and> os_Stat fs (Join [root s, b]) = Inr (Directory es) \<longrightarrow>
        (\<exists>objs. ListObjects s fs b pre = Inr objs
           \<and> set (map Key objs)
               = {k. canonical_key k \<and> object_at s fs b k \<and> (pre = [] \<or> prefix pre k)}))"
proof
  show f: "ListObjects s fs b pre
     = (case ListObjects s fs b [] of
          Inl e \<Rightarrow> Inl e
        | Inr all \<Rightarrow> Inr (filter (\<lambda>ob. pre = [] \<or> prefix pre (Key ob)) all))"
    by (rule ListObjects_filter)
  show "wf_fs fs \<and> os_Stat fs (Join [root s, b]) = Inr (Directory es) \<longrightarrow>
        (\<exists>objs. ListObjects s fs b pre = Inr objs
           \<and> set (map Key objs)
               = {k. canonical_key k \<and> object_at s fs b k \<and> (pre = [] \<or> prefix pre k)})"
  proof
    assume a: "wf_fs fs \<and> os_Stat fs (Join [root s, b]) = Inr (Directory es)"
    then obtain all where all: "ListObjects s fs b [] = Inr all"
      "set (map Key all) = {k. canonical_key k \<and> object_at s fs b k}"
      using ListObjects_bucket [of fs s b es] by blast
    let ?objs = "filter (\<lambda>ob. pre = [] \<or> prefix pre (Key ob)) all"
    have "ListObjects s fs b pre = Inr ?objs" using f all(1) by simp
    moreover have "set (map Key ?objs)
        = {k. k \<in> set (map Key all) \<and> (pre = [] \<or> prefix pre k)}" by auto
    ultimately show "\<exists>objs. ListObjects s fs b pre = Inr objs
           \<and> set (map Key objs)
               = {k. canonical_key k \<and> object_at s fs b k \<and> (pre = [] \<or> prefix pre k)}"
      using all(2) by auto
  qed
qed

theorem ListObjects_prefix_filter_witness:
  "wf_fs fs_listing
   \<and> os_Stat fs_listing (Join [root srv, ''b''])
       = Inr (Directory
           [(''dirx'', RegFile ''1''),
            (''dir'', Directory
               [(''sub'', Directory [(''deep.txt'', RegFile ''22'')]),
                (''nested.txt'', RegFile ''333'')]),
            (''a.txt'', RegFile ''4444'')])
   \<and> ListObjects srv fs_listing ''b'' []
       = Inr [\<lparr>Key = ''a.txt'', Size = 4, ETag = []\<rparr>,
              \<lparr>Key = ''dir/nested.txt'', Size = 3, ETag = []\<rparr>,
              \<lparr>Key = ''dir/sub/deep.txt'', Size = 2, ETag = []\<rparr>,
              \<lparr>Key = ''dirx'', Size = 1, ETag = []\<rparr>]
   \<and> ListObjects srv fs_listing ''b'' ''dir/''
       = Inr [\<lparr>Key = ''dir/nested.txt'', Size = 3, ETag = []\<rparr>,
              \<lparr>Key = ''dir/sub/deep.txt'', Size = 2, ETag = []\<rparr>]
   \<and> (\<exists>objs. ListObjects srv fs_listing ''b'' ''dir/'' = Inr objs
         \<and> set (map Key objs)
             = {k. canonical_key k \<and> object_at srv fs_listing ''b'' k
                   \<and> (''dir/'' = [] \<or> prefix ''dir/'' k)})"
proof -
  have h: "wf_fs fs_listing
   \<and> os_Stat fs_listing (Join [root srv, ''b''])
       = Inr (Directory
           [(''dirx'', RegFile ''1''),
            (''dir'', Directory
               [(''sub'', Directory [(''deep.txt'', RegFile ''22'')]),
                (''nested.txt'', RegFile ''333'')]),
            (''a.txt'', RegFile ''4444'')])"
    by code_simp
  have e1: "ListObjects srv fs_listing ''b'' []
       = Inr [\<lparr>Key = ''a.txt'', Size = 4, ETag = []\<rparr>,
              \<lparr>Key = ''dir/nested.txt'', Size = 3, ETag = []\<rparr>,
              \<lparr>Key = ''dir/sub/deep.txt'', Size = 2, ETag = []\<rparr>,
              \<lparr>Key = ''dirx'', Size = 1, ETag = []\<rparr>]"
    by code_simp
  note T = ListObjects_prefix_filter [of srv fs_listing "''b''" "''dir/''"]
  have e2: "ListObjects srv fs_listing ''b'' ''dir/''
       = Inr [\<lparr>Key = ''dir/nested.txt'', Size = 3, ETag = []\<rparr>,
              \<lparr>Key = ''dir/sub/deep.txt'', Size = 2, ETag = []\<rparr>]"
    by code_simp
  have c: "\<exists>objs. ListObjects srv fs_listing ''b'' ''dir/'' = Inr objs
         \<and> set (map Key objs)
             = {k. canonical_key k \<and> object_at srv fs_listing ''b'' k
                   \<and> (''dir/'' = [] \<or> prefix ''dir/'' k)}"
    by (rule T [THEN conjunct2, THEN mp, OF h])
  show ?thesis
    by (intro conjI) (fact h [THEN conjunct1] h [THEN conjunct2] e1 e2 c)+
qed

text \<open>
  C3, as the code has it.  When keys in canonical form (proper names, one slash between
  them, at any depth) are written with success into a bucket whose directory exists,
  the listing for the empty prefix returns exactly these keys together with the keys of
  the objects that were in the bucket before; for a bucket that was empty, exactly the
  keys written.  Each key is returned as it was written.
\<close>

theorem ListObjects_after_puts:
  "wf_fs fs \<and> os_Stat fs (Join [root s, b]) = Inr (Directory es)
   \<and> (\<forall>k\<in>set (map fst kps). canonical_key k) \<and> put_all s fs b kps = Some fs'
   \<longrightarrow> (\<exists>objs. ListObjects s fs' b [] = Inr objs
         \<and> set (map Key objs)
             = set (map fst kps) \<union> {k. canonical_key k \<and> object_at s fs b k}
         \<and> (es = [] \<longrightarrow> set (map Key objs) = set (map fst kps)))"
proof
  assume a: "wf_fs fs \<and> os_Stat fs (Join [root s, b]) = Inr (Directory es)
   \<and> (\<forall>k\<in>set (map fst kps). canonical_key k) \<and> put_all s fs b kps = Some fs'"
  then have wf: "wf_fs fs" and st: "os_Stat fs (Join [root s, b]) = Inr (Directory es)"
    and ck: "\<forall>k\<in>set (map fst kps). canonical_key k" and pa: "put_all s fs b kps = Some fs'"
    by simp_all
  from put_all_objects [OF wf st ck pa] obtain es' where
    w': "wf_fs fs'" and st': "os_Stat fs' (Join [root s, b]) = Inr (Directory es')"
    and o: "\<And>k'. canonical_key k' \<Longrightarrow>
          object_at s fs' b k' = (k' \<in> set (map fst kps) \<or> object_at s fs b k')"
    by blast
  from ListObjects_bucket [OF w' st'] obtain objs where
    lo: "ListObjects s fs' b [] = Inr objs"
    and ks: "set (map Key objs) = {k. canonical_key k \<and> object_at s fs' b k}" by blast
  have eq: "{k. canonical_key k \<and> object_at s fs' b k}
      = set (map fst kps) \<union> {k. canonical_key k \<and> object_at s fs b k}"
    using o ck by auto
  have none: "{k. canonical_key k \<and> object_at s fs b k} = {}" if "es = []"
  proof -
    have "\<not> object_at s fs b k" if c: "canonical_key k" for k
    proof -
      from c canonical_key_iff obtain ns where
        ns: "ns \<noteq> []" "\<forall>n\<in>set ns. valid_name n" "k = join_slash ns" by blast
      have "lookup (Directory []) ns \<noteq> Inr (RegFile d)" for d
        using ns(1) by (cases ns) auto
      then show ?thesis
        using object_at_canonical [OF st ns(2)] ns(3) \<open>es = []\<close> by simp
    qed
    then show ?thesis by blast
  qed
  show "\<exists>objs. ListObjects s fs' b [] = Inr objs
         \<and> set (map Key objs)
             = set (map fst kps) \<union> {k. canonical_key k \<and> object_at s fs b k}
         \<and> (es = [] \<longrightarrow> set (map Key objs) = set (map fst kps))"
    using lo ks eq none by auto
qed

theorem ListObjects_after_puts_witness:
  "wf_fs fs_nested \<and> os_Stat fs_nested (Join [root srv, ''c'']) = Inr (Directory [])
   \<and> canonical_key ''x'' \<and> canonical_key ''dir/sub/deep.txt'' \<and> canonical_key ''dir/n.txt''
   \<and> put_all srv fs_nested ''c''
        [(''x'', ''1''), (''dir/sub/deep.txt'', ''22''), (''dir/n.txt'', ''333'')] = Some fs_filled
   \<and> ListObjects srv fs_filled ''c'' []
       = Inr [\<lparr>Key = ''dir/n.txt'', Size = 3, ETag = []\<rparr>,
              \<lparr>Key = ''dir/sub/deep.txt'', Size = 2, ETag = []\<rparr>,
              \<lparr>Key = ''x'', Size = 1, ETag = []\<rparr>]
   \<and> (\<exists>objs. ListObjects srv fs_filled ''c'' [] = Inr objs
         \<and> set (map Key objs)
             = set (map fst [(''x'', ''1''), (''dir/sub/deep.txt'', ''22''), (''dir/n.txt'', ''333'')]))"
proof -
  let ?kps = "[(''x'', ''1''), (''dir/sub/deep.txt'', ''22''), (''dir/n.txt'', ''333'')]"
  have h: "wf_fs fs_nested \<and> os_Stat fs_nested (Join [root srv, ''c'']) = Inr (Directory [])
   \<and> (\<forall>k\<in>set (map fst ?kps). canonical_key k)
   \<and> put_all srv fs_nested ''c'' ?kps = Some fs_filled"
    by code_simp
  have e: "ListObjects srv fs_filled ''c'' []
       = Inr [\<lparr>Key = ''dir/n.txt'', Size = 3, ETag = []\<rparr>,
              \<lparr>Key = ''dir/sub/deep.txt'', Size = 2, ETag = []\<rparr>,
              \<lparr>Key = ''x'', Size = 1, ETag = []\<rparr>]"
    by code_simp
  from ListObjects_after_puts [of fs_nested srv "''c''" "[]" ?kps fs_filled, THEN mp, OF h]
  obtain objs where "ListObjects srv fs_filled ''c'' [] = Inr objs"
    and "[] = ([] :: (string \<times> node) list) \<longrightarrow> set (map Key objs) = set (map fst ?kps)"
    by (elim exE conjE)
  then have c: "\<exists>objs. ListObjects srv fs_filled ''c'' [] = Inr objs
         \<and> set (map Key objs) = set (map fst ?kps)"
    by (intro exI [of _ objs] conjI) (assumption, erule mp, rule refl)
  have k: "canonical_key ''x''" "canonical_key ''dir/sub/deep.txt''" "canonical_key ''dir/n.txt''"
    by code_simp+
  show ?thesis
    by (intro conjI) (fact h [THEN conjunct1] h [THEN conjunct2, THEN conjunct1] k
        h [THEN conjunct2, THEN conjunct2, THEN conjunct2] e c)+
qed

text \<open>
  The claim C3 as it is stated, for every set of keys, fails for a key that is not in
  canonical form: the key \<open>a//b\<close> is written with success, and the listing returns the
  key \<open>a/b\<close>.
\<close>

theorem ListObjects_unclean_key_counterexample:
  "put_all srv fs_nested ''c'' [(''a//b'', ''P'')] = Some fs_doubled
   \<and> ListObjects srv fs_doubled ''c'' [] = Inr [\<lparr>Key = ''a/b'', Size = 1, ETag = []\<rparr>]
   \<and> set (map Key [\<lparr>Key = ''a/b'', Size = 1, ETag = []\<rparr>]) \<noteq> set (map fst [(''a//b'', ''P'')])"
  by code_simp

end
